theory Spec2Isabelle
  imports Complex_Main
begin

section \<open>Errors, configuration and construction\<close>

text \<open>
  The embedding follows \<^verbatim>\<open>src/model/soundstorm.py\<close>. Tensors are nested lists; every
  raise of the source is a value of \<open>error\<close> on the left of a sum. Floating point numbers
  are read as real numbers. Where a count depends on how floats round (the number of logits
  that \<^verbatim>\<open>top_k\<close> keeps, the schedule of \<^verbatim>\<open>generate\<close>), the rounded value is a parameter of
  the definition.
\<close>

datatype error = AssertionError | IndexError | RuntimeError | UnboundLocalError

text \<open>
  The entries of the configuration dictionary that \<^verbatim>\<open>SoundStorm.__init__\<close> reads for the
  masking and scheduling code: \<^verbatim>\<open>config['model'][...]\<close> and
  \<^verbatim>\<open>config['inference'][...]\<close>. Step counts are natural numbers.
\<close>

record config =
  acoustic_codebook_size :: nat
  acoustic_num_quantizers :: nat
  inference_steps :: "nat list"
  inference_filter_threshold :: real
  inference_temperature :: real

text \<open>The attributes of a constructed \<^verbatim>\<open>SoundStorm\<close> object that the code below reads.\<close>

record soundstorm =
  steps :: "nat list"
  filter_threshold :: real
  temperature :: real
  ignore_index :: nat
  n_q :: nat
  mask_token_id :: nat
  mask_upper_level :: nat

text \<open>
  \<^verbatim>\<open>__init__\<close>, lines 66 to 99: the only check is
  \<^verbatim>\<open>assert self.ignore_index == 1025\<close>; \<^verbatim>\<open>self.steps\<close> is stored as it comes. The
  construction of the embeddings and of the network from the other entries of the
  configuration is outside the embedding.
\<close>

definition SoundStorm_init :: "config \<Rightarrow> error + soundstorm" where
  "SoundStorm_init cfg =
     (if acoustic_codebook_size cfg \<noteq> 1025 then Inl AssertionError
      else Inr \<lparr> steps = inference_steps cfg,
                 filter_threshold = inference_filter_threshold cfg,
                 temperature = inference_temperature cfg,
                 ignore_index = acoustic_codebook_size cfg,
                 n_q = acoustic_num_quantizers cfg,
                 mask_token_id = acoustic_codebook_size cfg,
                 mask_upper_level = acoustic_codebook_size cfg \<rparr>)"

section \<open>Tensor helpers\<close>

text \<open>\<^verbatim>\<open>cosine_schedule(t) = torch.cos(t * math.pi * 0.5)\<close>\<close>

definition cosine_schedule :: "real \<Rightarrow> real" where
  "cosine_schedule t = cos (t * pi * 0.5)"

text \<open>\<^verbatim>\<open>.long()\<close> truncates towards zero.\<close>

definition long :: "real \<Rightarrow> int" where
  "long x = (if 0 \<le> x then \<lfloor>x\<rfloor> else \<lceil>x\<rceil>)"

text \<open>\<^verbatim>\<open>torch.linspace(a, b, n)\<close>: \<open>n\<close> equally spaced points, the single point \<open>a\<close> for \<open>n = 1\<close>.\<close>

definition linspace :: "real \<Rightarrow> real \<Rightarrow> nat \<Rightarrow> real list" where
  "linspace a b n = map (\<lambda>i. a + (b - a) * real i / real (n - 1)) [0..<n]"

text \<open>
  \<^verbatim>\<open>x.topk(k, dim=-1).indices\<close> on one row: the indices of the \<open>k\<close> largest entries,
  largest first. Torch raises when \<open>k\<close> is negative or exceeds the row length. Among equal
  entries torch's choice is unspecified; the model takes the smaller index first.
\<close>

definition topk_indices :: "real list \<Rightarrow> int \<Rightarrow> error + nat list" where
  "topk_indices xs k =
     (if k < 0 \<or> int (length xs) < k then Inl RuntimeError
      else Inr (take (nat k) (sort_key (\<lambda>i. - (xs ! i)) [0..<length xs])))"

text \<open>\<^verbatim>\<open>base.scatter_(dim, ind, val)\<close> on one row: \<open>base[ind[j]] = val[j]\<close>.\<close>

definition scatter :: "'a list \<Rightarrow> nat list \<Rightarrow> 'a list \<Rightarrow> 'a list" where
  "scatter base ind val = fold (\<lambda>(i, v) acc. acc[i := v]) (zip ind val) base"

text \<open>\<^verbatim>\<open>base.scatter(dim, ind, v)\<close> with a scalar \<open>v\<close>.\<close>

definition scatter_value :: "'a list \<Rightarrow> nat list \<Rightarrow> 'a \<Rightarrow> 'a list" where
  "scatter_value base ind v = fold (\<lambda>i acc. acc[i := v]) ind base"

text \<open>\<^verbatim>\<open>torch.where(c, a, b)\<close> and \<^verbatim>\<open>x.masked_fill(m, v)\<close> on one row.\<close>

definition torch_where :: "bool list \<Rightarrow> 'a list \<Rightarrow> 'a list \<Rightarrow> 'a list" where
  "torch_where c a b = map (\<lambda>(m, x, y). if m then x else y) (zip c (zip a b))"

definition masked_fill :: "'a list \<Rightarrow> bool list \<Rightarrow> 'a \<Rightarrow> 'a list" where
  "masked_fill xs m v = map (\<lambda>(x, b). if b then v else x) (zip xs m)"

section \<open>Top-fraction filtering\<close>

text \<open>
  \<^verbatim>\<open>top_k(logits, thres)\<close>, lines 26 to 31, on the row of one position (torch runs it on
  every position of the batch at once; \<^verbatim>\<open>logits.shape[-1]\<close> is the row length). \<open>None\<close>
  stands for \<^verbatim>\<open>float('-inf')\<close>.

  \<^verbatim>\<open>(1 - thres) * logits.shape[-1]\<close> is computed in double precision: each of the two
  operations returns its exact result rounded to a double, and \<open>rnd\<close> stands for that
  rounding. \<^verbatim>\<open>math.ceil\<close> is exact.
\<close>

definition top_k :: "(real \<Rightarrow> real) \<Rightarrow> real list \<Rightarrow> real \<Rightarrow> error + real option list" where
  "top_k rnd logits thres =
     (let k = \<lceil>rnd (rnd (1 - thres) * real (length logits))\<rceil> in
      case topk_indices logits k of
        Inl e \<Rightarrow> Inl e
      | Inr ind \<Rightarrow>
          (let val = map (\<lambda>i. logits ! i) ind;
               probs = replicate (length logits) None
           in Inr (scatter probs ind (map Some val))))"

text \<open>
  The facts about rounding to the nearest double that are used below: it is monotone, it
  leaves the integers up to \<open>2^53\<close> and the number \<open>2^-53\<close> as they are, and a double below 1
  is at most \<open>1 - 2^-53\<close>. A number \<open>x\<close> is a double when \<open>rnd x = x\<close>.
\<close>

definition binary64 :: "(real \<Rightarrow> real) \<Rightarrow> bool" where
  "binary64 rnd =
     ((\<forall>x y. x \<le> y \<longrightarrow> rnd x \<le> rnd y) \<and>
      (\<forall>n. n \<le> 2 ^ 53 \<longrightarrow> rnd (real n) = real n) \<and>
      rnd (1 / 2 ^ 53) = 1 / 2 ^ 53 \<and>
      (\<forall>x. rnd x = x \<and> x < 1 \<longrightarrow> x \<le> 1 - 1 / 2 ^ 53))"

text \<open>
  A rounding with these properties, for the examples: to the nearest multiple of \<open>2^-53\<close>.
  It agrees with rounding to a double wherever the examples use it.
\<close>

definition fixed53 :: "real \<Rightarrow> real" where
  "fixed53 x = real_of_int \<lfloor>x * 2 ^ 53 + 1 / 2\<rfloor> / 2 ^ 53"

section \<open>Inference: the unmasking scheduler\<close>

text \<open>
  In \<^verbatim>\<open>generate\<close> the batch size is fixed to 1, and that axis is dropped: \<open>codes\<close>,
  \<open>prompt\<close> and \<open>seq\<close> are lists over time of rows over the levels, so that
  \<^verbatim>\<open>seq[0, n, l]\<close> is \<open>seq ! n ! l\<close> and \<^verbatim>\<open>torch.cat([prompt, seq], dim=1)\<close> is
  \<open>prompt @ seq\<close>. \<open>mask\<close> has the shape of \<open>seq\<close>.
\<close>

type_synonym tokens = "nat list list"
type_synonym flags = "bool list list"

text \<open>\<^verbatim>\<open>x[:, :, l]\<close> read, and the assignment \<^verbatim>\<open>x[:, :, l] = vs\<close>.\<close>

definition col :: "nat \<Rightarrow> 'a list list \<Rightarrow> 'a list" where
  "col l xs = map (\<lambda>row. row ! l) xs"

definition set_col :: "nat \<Rightarrow> 'a list list \<Rightarrow> 'a list \<Rightarrow> 'a list list" where
  "set_col l xs vs = map (\<lambda>(row, v). row[l := v]) (zip xs vs)"

text \<open>\<^verbatim>\<open>-torch.finfo(scores.dtype).max\<close> for 32-bit floats.\<close>

definition neg_finfo_max :: real where
  "neg_finfo_max = - 340282346638528859811704183484516925440"

text \<open>
  The network, the filter and the noise are outside the embedding. A sampler stands for
  lines 328 to 334 and 340 to 342: from the generator state, the model input
  \<^verbatim>\<open>torch.cat([prompt, seq], dim=1)\<close> and the level it gives \<^verbatim>\<open>sampled_ids\<close>, the
  gathered \<^verbatim>\<open>scores\<close> (one minus the softmax probability of the sampled code), one of
  each per continuation position, and the next generator state.
\<close>

type_synonym 'g sampler = "'g \<Rightarrow> tokens \<Rightarrow> nat \<Rightarrow> nat list \<times> real list \<times> 'g"

text \<open>
  What is assumed of a sampler over \<open>seq_len\<close> positions: ids are an \<^verbatim>\<open>argmax\<close> over
  the 1025 logits of a position (\<^verbatim>\<open>logits.view(..., 8, 1025)\<close>), and scores are one minus
  a softmax probability, a number between 0 and 1 (the filter has kept at least one logit
  of every position, so that the softmax is defined).
\<close>

definition sampler_ok :: "'g sampler \<Rightarrow> nat \<Rightarrow> bool" where
  "sampler_ok sample seq_len =
     (\<forall>g x l. case sample g x l of (sampled_ids, scores, g') \<Rightarrow>
        length sampled_ids = seq_len \<and> length scores = seq_len \<and>
        (\<forall>i \<in> set sampled_ids. i < 1025) \<and> (\<forall>s \<in> set scores. 0 \<le> s \<and> s \<le> 1))"

text \<open>
  The schedule of one level, lines 322 to 324:
  \<^verbatim>\<open>(cosine_schedule(torch.linspace(0., 1., iter_steps + 1)[1:]) * seq_len).long()\<close>
\<close>

definition all_mask_num_tokens :: "nat \<Rightarrow> nat \<Rightarrow> int list" where
  "all_mask_num_tokens iter_steps seq_len =
     (let times = linspace 0 1 (iter_steps + 1)
      in map (\<lambda>t. long (cosine_schedule t * real seq_len)) (drop 1 times))"

text \<open>
  The body of the inner loop, lines 328 to 355, for one \<open>mask_num_tokens\<close>. The state is
  the generator state, \<open>seq\<close> and \<open>msk\<close> (the source's \<^verbatim>\<open>mask\<close>). A sampler output of the wrong length is the
  shape error torch raises.
\<close>

definition generate_step ::
  "soundstorm \<Rightarrow> 'g sampler \<Rightarrow> tokens \<Rightarrow> nat \<Rightarrow> int \<Rightarrow> 'g \<times> tokens \<times> flags
     \<Rightarrow> error + 'g \<times> tokens \<times> flags" where
  "generate_step M sample prompt rvq_layer mask_num_tokens st =
     (case st of (g, seq, msk) \<Rightarrow>
       (case sample g (prompt @ seq) rvq_layer of (sampled_ids, scores, g') \<Rightarrow>
         (if length sampled_ids \<noteq> length seq \<or> length scores \<noteq> length seq
          then Inl RuntimeError
          else
            (let seq1 = set_col rvq_layer seq
                          (torch_where (col rvq_layer msk) sampled_ids (col rvq_layer seq))
             in if mask_num_tokens = 0 then Inr (g', seq1, msk)
                else
                  (let scores1 = masked_fill scores (map Not (col rvq_layer msk)) neg_finfo_max
                   in (case topk_indices scores1 mask_num_tokens of
                         Inl e \<Rightarrow> Inl e
                       | Inr mask_indices \<Rightarrow>
                           (let mask1 = set_col rvq_layer msk
                                          (scatter_value (replicate (length scores1) False)
                                             mask_indices True);
                                seq2 = set_col rvq_layer seq1
                                         (masked_fill (col rvq_layer seq1) (col rvq_layer mask1)
                                            (mask_token_id M))
                            in Inr (g', seq2, mask1))))))))"

text \<open>The inner loop over the schedule of one level.\<close>

fun generate_steps ::
  "soundstorm \<Rightarrow> 'g sampler \<Rightarrow> tokens \<Rightarrow> nat \<Rightarrow> int list \<Rightarrow> 'g \<times> tokens \<times> flags
     \<Rightarrow> error + 'g \<times> tokens \<times> flags" where
  "generate_steps M sample prompt rvq_layer [] st = Inr st"
| "generate_steps M sample prompt rvq_layer (mask_num_tokens # rest) st =
     (case generate_step M sample prompt rvq_layer mask_num_tokens st of
        Inl e \<Rightarrow> Inl e
      | Inr st' \<Rightarrow> generate_steps M sample prompt rvq_layer rest st')"

text \<open>
  One pass of the outer loop: \<^verbatim>\<open>self.steps[rvq_layer]\<close> raises when the list is too
  short; \<open>seq_len\<close> is the number of continuation positions.
\<close>

definition generate_level ::
  "soundstorm \<Rightarrow> 'g sampler \<Rightarrow> tokens \<Rightarrow> nat \<Rightarrow> nat \<Rightarrow> 'g \<times> tokens \<times> flags
     \<Rightarrow> error + 'g \<times> tokens \<times> flags" where
  "generate_level M sample prompt seq_len rvq_layer st =
     (if length (steps M) \<le> rvq_layer then Inl IndexError
      else generate_steps M sample prompt rvq_layer
             (all_mask_num_tokens (steps M ! rvq_layer) seq_len) st)"

fun generate_levels ::
  "soundstorm \<Rightarrow> 'g sampler \<Rightarrow> tokens \<Rightarrow> nat \<Rightarrow> nat list \<Rightarrow> 'g \<times> tokens \<times> flags
     \<Rightarrow> error + 'g \<times> tokens \<times> flags" where
  "generate_levels M sample prompt seq_len [] st = Inr st"
| "generate_levels M sample prompt seq_len (rvq_layer # rest) st =
     (case generate_level M sample prompt seq_len rvq_layer st of
        Inl e \<Rightarrow> Inl e
      | Inr st' \<Rightarrow> generate_levels M sample prompt seq_len rest st')"

text \<open>The sizes of lines 288 to 293 and the initial buffers of lines 311 to 314.\<close>

definition num_latents_input :: "'c list \<Rightarrow> nat" where
  "num_latents_input conds = nat \<lfloor>real (length conds) * 1.5\<rfloor>"

definition num_prompt :: "'c list \<Rightarrow> nat" where
  "num_prompt conds = min (nat \<lfloor>real (num_latents_input conds) * 0.5\<rfloor>) 225"

definition num_latents_to_generate :: "'c list \<Rightarrow> nat" where
  "num_latents_to_generate conds = num_latents_input conds - num_prompt conds"

definition init_seq :: "soundstorm \<Rightarrow> nat \<Rightarrow> tokens" where
  "init_seq M seq_len = replicate seq_len (replicate 8 (mask_token_id M))"

definition init_mask :: "nat \<Rightarrow> flags" where
  "init_mask seq_len = replicate seq_len (replicate 8 True)"

text \<open>
  \<^verbatim>\<open>generate(conds, codes)\<close>: the prompt is \<^verbatim>\<open>codes[:, :num_prompt, :]\<close>, the loop runs
  over the levels \<^verbatim>\<open>range(8)\<close>, the result is \<^verbatim>\<open>torch.cat([prompt, seq], dim=1)\<close>.
\<close>

definition generate ::
  "soundstorm \<Rightarrow> 'g sampler \<Rightarrow> 'g \<Rightarrow> 'c list \<Rightarrow> tokens \<Rightarrow> error + tokens" where
  "generate M sample g conds codes =
     (let prompt = take (num_prompt conds) codes;
          seq_len = num_latents_to_generate conds;
          seq = init_seq M seq_len;
          msk = init_mask seq_len
      in case generate_levels M sample prompt seq_len [0..<8] (g, seq, msk) of
           Inl e \<Rightarrow> Inl e
         | Inr (g', seq', msk') \<Rightarrow> Inr (prompt @ seq'))"

text \<open>
  The source computes the schedule on 32-bit floats: \<^verbatim>\<open>linspace\<close>, the product with
  \<^verbatim>\<open>math.pi * 0.5\<close>, the cosine and the product with \<^verbatim>\<open>seq_len\<close> each round their result, and
  \<^verbatim>\<open>.long()\<close> truncates the rounded product. In the definitions above the product is the
  exact real number. In the definitions below \<open>fprod iter_steps seq_len\<close> stands for the
  float tensor \<^verbatim>\<open>cosine_schedule(torch.linspace(0., 1., iter_steps + 1)[1:]) * seq_len\<close>; the
  rest is the same code.
\<close>

definition exact_product :: "nat \<Rightarrow> nat \<Rightarrow> real list" where
  "exact_product iter_steps seq_len =
     (let times = linspace 0 1 (iter_steps + 1)
      in map (\<lambda>t. cosine_schedule t * real seq_len) (drop 1 times))"

text \<open>
  What is assumed of the float product over \<open>seq_len\<close> positions: one entry per step, each
  less than one half away from the exact product (the rounding errors of 32-bit floats are
  of the order of \<open>seq_len / 10^7\<close>).
\<close>

definition accurate_product :: "(nat \<Rightarrow> nat \<Rightarrow> real list) \<Rightarrow> nat \<Rightarrow> bool" where
  "accurate_product fprod seq_len =
     (\<forall>S. length (fprod S seq_len) = S \<and>
        (\<forall>i < S. \<bar>fprod S seq_len ! i - exact_product S seq_len ! i\<bar> < 1 / 2))"

definition generate_level_f32 ::
  "(nat \<Rightarrow> nat \<Rightarrow> real list) \<Rightarrow> soundstorm \<Rightarrow> 'g sampler \<Rightarrow> tokens \<Rightarrow> nat \<Rightarrow> nat
     \<Rightarrow> 'g \<times> tokens \<times> flags \<Rightarrow> error + 'g \<times> tokens \<times> flags" where
  "generate_level_f32 fprod M sample prompt seq_len rvq_layer st =
     (if length (steps M) \<le> rvq_layer then Inl IndexError
      else generate_steps M sample prompt rvq_layer
             (map long (fprod (steps M ! rvq_layer) seq_len)) st)"

fun generate_levels_f32 ::
  "(nat \<Rightarrow> nat \<Rightarrow> real list) \<Rightarrow> soundstorm \<Rightarrow> 'g sampler \<Rightarrow> tokens \<Rightarrow> nat \<Rightarrow> nat list
     \<Rightarrow> 'g \<times> tokens \<times> flags \<Rightarrow> error + 'g \<times> tokens \<times> flags" where
  "generate_levels_f32 fprod M sample prompt seq_len [] st = Inr st"
| "generate_levels_f32 fprod M sample prompt seq_len (rvq_layer # rest) st =
     (case generate_level_f32 fprod M sample prompt seq_len rvq_layer st of
        Inl e \<Rightarrow> Inl e
      | Inr st' \<Rightarrow> generate_levels_f32 fprod M sample prompt seq_len rest st')"

definition generate_f32 ::
  "(nat \<Rightarrow> nat \<Rightarrow> real list) \<Rightarrow> soundstorm \<Rightarrow> 'g sampler \<Rightarrow> 'g \<Rightarrow> 'c list \<Rightarrow> tokens
     \<Rightarrow> error + tokens" where
  "generate_f32 fprod M sample g conds codes =
     (let prompt = take (num_prompt conds) codes;
          seq_len = num_latents_to_generate conds;
          seq = init_seq M seq_len;
          msk = init_mask seq_len
      in case generate_levels_f32 fprod M sample prompt seq_len [0..<8] (g, seq, msk) of
           Inl e \<Rightarrow> Inl e
         | Inr (g', seq', msk') \<Rightarrow> Inr (prompt @ seq'))"

section \<open>Training: the masker\<close>

text \<open>
  In training \<open>codes\<close> has the shape (batch, time, levels): \<^verbatim>\<open>codes[b, n, l]\<close> is
  \<open>codes ! b ! n ! l\<close>. The sizes \<^verbatim>\<open>codes.shape[1]\<close> and \<^verbatim>\<open>codes.shape[2]\<close> are read
  off the first example and its first row.
\<close>

type_synonym codes3 = "nat list list list"

definition shape1 :: "codes3 \<Rightarrow> nat" where
  "shape1 codes = (case codes of [] \<Rightarrow> 0 | ex # _ \<Rightarrow> length ex)"

definition shape2 :: "codes3 \<Rightarrow> nat" where
  "shape2 codes =
     (case codes of [] \<Rightarrow> 0 | ex # _ \<Rightarrow> (case ex of [] \<Rightarrow> 0 | row # _ \<Rightarrow> length row))"

definition tensor3 :: "nat \<Rightarrow> nat \<Rightarrow> nat \<Rightarrow> codes3 \<Rightarrow> bool" where
  "tensor3 B N Q codes =
     (length codes = B \<and> (\<forall>ex \<in> set codes. length ex = N \<and> (\<forall>row \<in> set ex. length row = Q)))"

text \<open>
  \<^verbatim>\<open>rearrange(codes, 'b n q -> q b n')\<close> permutes axes without copying, and iterating over
  the result yields one view per level: \<open>level_view i codes\<close> is what the view of level
  \<open>i\<close> reads from the storage \<open>codes\<close>.
\<close>

definition level_view :: "nat \<Rightarrow> codes3 \<Rightarrow> nat list list" where
  "level_view i codes = map (\<lambda>ex. map (\<lambda>row. row ! i) ex) codes"

text \<open>\<^verbatim>\<open>torch.where(mask, a, v)\<close> and \<^verbatim>\<open>torch.where(mask, v, a)\<close> with a scalar \<open>v\<close>, on (batch, time).\<close>

definition where_else :: "bool list list \<Rightarrow> 'a list list \<Rightarrow> 'a \<Rightarrow> 'a list list" where
  "where_else m a v =
     map (\<lambda>(mrow, arow). map (\<lambda>(c, x). if c then x else v) (zip mrow arow)) (zip m a)"

definition where_then :: "bool list list \<Rightarrow> 'a \<Rightarrow> 'a list list \<Rightarrow> 'a list list" where
  "where_then m v a =
     map (\<lambda>(mrow, arow). map (\<lambda>(c, x). if c then v else x) (zip mrow arow)) (zip m a)"

text \<open>
  The mask of \<^verbatim>\<open>_level_mask\<close>, lines 177 to 184. The two random draws are arguments:
  \<open>rand_times\<close>, one number of \<open>[0, 1)\<close> per example, and \<open>batched_randperm\<close>, the
  \<^verbatim>\<open>argsort\<close> of a random row per example, a permutation of \<open>[0..<seq_len - t]\<close>.
\<close>

definition level_mask_flags ::
  "nat \<Rightarrow> nat \<Rightarrow> nat \<Rightarrow> real list \<Rightarrow> nat list list \<Rightarrow> bool list list" where
  "level_mask_flags seq_len b t rand_times batched_randperm =
     (let rand_probs = map cosine_schedule rand_times;
          num_tokens_mask = map (\<lambda>p. max (p * real (seq_len - t)) 1) rand_probs;
          mask0 = map (\<lambda>(perm, x). map (\<lambda>r. real r < x) perm)
                    (zip batched_randperm num_tokens_mask);
          prompt_mask = replicate b (replicate t False)
      in map (\<lambda>(p, m). p @ m) (zip prompt_mask mask0))"

text \<open>
  \<^verbatim>\<open>_level_mask(code, seq_len, b, t, device)\<close>: \<^verbatim>\<open>torch.rand((b, seq_len - t))\<close> raises on
  a negative size. Both results are new tensors.
\<close>

definition level_mask ::
  "soundstorm \<Rightarrow> nat list list \<Rightarrow> nat \<Rightarrow> nat \<Rightarrow> nat \<Rightarrow> real list \<Rightarrow> nat list list
     \<Rightarrow> error + nat list list \<times> nat list list" where
  "level_mask M code seq_len b t rand_times batched_randperm =
     (if seq_len < t then Inl RuntimeError
      else
        (let m = level_mask_flags seq_len b t rand_times batched_randperm;
             labels = where_else m code (ignore_index M);
             code' = where_then m (mask_token_id M) code
         in Inr (code', labels)))"

text \<open>
  \<^verbatim>\<open>_fine_mask(code, t)\<close> assigns \<^verbatim>\<open>code[:, t:] = self.mask_upper_level\<close> through the view
  of level \<open>i\<close>: the result is the storage after the assignment.
\<close>

definition fine_mask :: "soundstorm \<Rightarrow> codes3 \<Rightarrow> nat \<Rightarrow> nat \<Rightarrow> codes3" where
  "fine_mask M codes i t =
     map (\<lambda>ex. take t ex @ map (\<lambda>row. row[i := mask_upper_level M]) (drop t ex)) codes"

text \<open>
  An entry of the list \<^verbatim>\<open>masked_codes\<close> is either the view of a level of the caller's
  storage or a new tensor.
\<close>

datatype tref = View nat | Fresh "nat list list"

definition deref :: "codes3 \<Rightarrow> tref \<Rightarrow> nat list list" where
  "deref codes r = (case r of View i \<Rightarrow> level_view i codes | Fresh c \<Rightarrow> c)"

text \<open>
  The loop of \<^verbatim>\<open>_masking\<close>, lines 202 to 209, over the levels still to visit. The state
  is the caller's storage, \<^verbatim>\<open>masked_codes\<close> and \<^verbatim>\<open>label\<close> (\<open>None\<close> while unbound).
\<close>

fun masking_loop ::
  "soundstorm \<Rightarrow> nat \<Rightarrow> nat \<Rightarrow> nat \<Rightarrow> nat \<Rightarrow> real list \<Rightarrow> nat list list \<Rightarrow> nat list
     \<Rightarrow> codes3 \<times> tref list \<times> nat list list option
     \<Rightarrow> error + codes3 \<times> tref list \<times> nat list list option" where
  "masking_loop M seq_len batch q t rand_times batched_randperm [] st = Inr st"
| "masking_loop M seq_len batch q t rand_times batched_randperm (i # rest)
       (codes, masked_codes, label) =
     (if q = i then
        (case level_mask M (level_view i codes) seq_len batch t rand_times batched_randperm of
           Inl e \<Rightarrow> Inl e
         | Inr (c, l) \<Rightarrow>
             masking_loop M seq_len batch q t rand_times batched_randperm rest
               (codes, masked_codes @ [Fresh c], Some l))
      else if q < i then
        masking_loop M seq_len batch q t rand_times batched_randperm rest
          (fine_mask M codes i t, masked_codes @ [View i], label)
      else
        masking_loop M seq_len batch q t rand_times batched_randperm rest
          (codes, masked_codes @ [View i], label))"

text \<open>
  \<^verbatim>\<open>_masking(codes, q, t)\<close>. The result is \<^verbatim>\<open>masked_codes\<close> as read when the function
  returns, \<^verbatim>\<open>label\<close>, and the caller's \<open>codes\<close> storage after the call. Returning an
  unbound \<^verbatim>\<open>label\<close> raises.
\<close>

definition masking ::
  "soundstorm \<Rightarrow> codes3 \<Rightarrow> nat \<Rightarrow> nat \<Rightarrow> real list \<Rightarrow> nat list list
     \<Rightarrow> error + nat list list list \<times> nat list list \<times> codes3" where
  "masking M codes q t rand_times batched_randperm =
     (let seq_len = shape1 codes;
          batch = length codes
      in (case masking_loop M seq_len batch q t rand_times batched_randperm
                [0..<shape2 codes] (codes, [], None) of
            Inl e \<Rightarrow> Inl e
          | Inr (codes', masked_codes, label) \<Rightarrow>
              (case label of
                 None \<Rightarrow> Inl UnboundLocalError
               | Some l \<Rightarrow> Inr (map (deref codes') masked_codes, l, codes'))))"

section \<open>Observations on the buffers\<close>

text \<open>
  A buffer over \<open>N\<close> continuation positions has \<open>N\<close> rows of 8 levels. At level \<open>l\<close>,
  \<open>masked_count\<close> counts the positions whose flag is set and \<open>mask_id_count\<close> the
  positions whose code is the mask id.
\<close>

definition shaped :: "nat \<Rightarrow> 'a list list \<Rightarrow> bool" where
  "shaped N xs = (length xs = N \<and> (\<forall>row \<in> set xs. length row = 8))"

definition masked_count :: "nat \<Rightarrow> flags \<Rightarrow> nat" where
  "masked_count l msk = length (filter (\<lambda>b. b) (col l msk))"

definition mask_id_count :: "soundstorm \<Rightarrow> nat \<Rightarrow> tokens \<Rightarrow> nat" where
  "mask_id_count M l seq = count_list (col l seq) (mask_token_id M)"

text \<open>
  Two invariants of the level \<open>l\<close> being decoded. \<open>resolved_unless_flagged\<close>: a position
  whose flag is off holds a code below the mask id. \<open>after_target c\<close> describes the level
  after a step with the target \<open>c\<close>: for \<open>c \<noteq> 0\<close> the flags mark exactly the mask ids and
  there are \<open>c\<close> of them, for \<open>c = 0\<close> no mask id is left.
\<close>

definition resolved_unless_flagged :: "soundstorm \<Rightarrow> nat \<Rightarrow> nat \<Rightarrow> tokens \<Rightarrow> flags \<Rightarrow> bool" where
  "resolved_unless_flagged M N l seq msk =
     (\<forall>n < N. \<not> msk ! n ! l \<longrightarrow> seq ! n ! l < mask_token_id M)"

definition after_target ::
  "soundstorm \<Rightarrow> nat \<Rightarrow> nat \<Rightarrow> int \<Rightarrow> tokens \<Rightarrow> flags \<Rightarrow> bool" where
  "after_target M N l c seq msk =
     (resolved_unless_flagged M N l seq msk \<and>
      (c \<noteq> 0 \<longrightarrow> (\<forall>n < N. msk ! n ! l \<longleftrightarrow> seq ! n ! l = mask_token_id M) \<and>
                 int (masked_count l msk) = c) \<and>
      (c = 0 \<longrightarrow> (\<forall>n < N. seq ! n ! l < mask_token_id M)))"

section \<open>A small generation\<close>

text \<open>
  Two condition tokens give three latents, a prompt of one position and two positions to
  generate. The sampler always proposes the codes 5 and 6 with the scores 0.1 and 0.9.
  With two steps over two positions the schedule is \<open>[1, 0]\<close>.
\<close>

definition demo_config :: config where
  "demo_config =
     \<lparr> acoustic_codebook_size = 1025, acoustic_num_quantizers = 8,
       inference_steps = [2, 1, 1, 1, 1, 1, 1, 1],
       inference_filter_threshold = 9 / 10, inference_temperature = 1 \<rparr>"

definition demo_model :: soundstorm where
  "demo_model =
     \<lparr> steps = [2, 1, 1, 1, 1, 1, 1, 1], filter_threshold = 9 / 10, temperature = 1,
       ignore_index = 1025, n_q = 8, mask_token_id = 1025, mask_upper_level = 1025 \<rparr>"

definition demo_sample :: "unit sampler" where
  "demo_sample g x l = ([5, 6], [1 / 10, 9 / 10], g)"

definition demo_prompt :: tokens where
  "demo_prompt = [[7, 7, 7, 7, 7, 7, 7, 7]]"

text \<open>
  A generation over three positions with three steps at level 0, where the schedule is
  \<open>[2, 1, 0]\<close>. The generator state counts the calls of the sampler, which always proposes
  the codes 5, 6 and 7: at the first call with the scores 0.1, 0.5 and 0.9, afterwards with
  the scores 0.9, 0.5 and 0.1.
\<close>

definition demo3_config :: config where
  "demo3_config = demo_config\<lparr>inference_steps := [3, 1, 1, 1, 1, 1, 1, 1]\<rparr>"

definition demo3_model :: soundstorm where
  "demo3_model = demo_model\<lparr>steps := [3, 1, 1, 1, 1, 1, 1, 1]\<rparr>"

definition demo3_sample :: "nat sampler" where
  "demo3_sample g x l =
     (if g = 0 then ([5, 6, 7], [1 / 10, 5 / 10, 9 / 10], Suc g)
      else ([5, 6, 7], [9 / 10, 5 / 10, 1 / 10], Suc g))"

text \<open>
  A small training batch for a model with two quantizers: one example of three positions
  and two levels.
\<close>

definition demo_train_config :: config where
  "demo_train_config = demo_config\<lparr>acoustic_num_quantizers := 2\<rparr>"

definition demo_train_model :: soundstorm where
  "demo_train_model = demo_model\<lparr>n_q := 2\<rparr>"

definition demo_codes :: codes3 where
  "demo_codes = [[[5, 6], [7, 8], [9, 10]]]"

section \<open>Facts about the tensor helpers\<close>

lemma length_col: "length (col l xs) = length xs"
  by (simp add: col_def)

lemma nth_col: "n < length xs \<Longrightarrow> col l xs ! n = xs ! n ! l"
  by (simp add: col_def)

lemma length_set_col: "length vs = length xs \<Longrightarrow> length (set_col l xs vs) = length xs"
  by (simp add: set_col_def)

lemma nth_set_col:
  "length vs = length xs \<Longrightarrow> n < length xs \<Longrightarrow> set_col l xs vs ! n = (xs ! n)[l := vs ! n]"
  by (simp add: set_col_def)

lemma length_torch_where:
  "length a = length c \<Longrightarrow> length b = length c \<Longrightarrow> length (torch_where c a b) = length c"
  by (simp add: torch_where_def)

lemma nth_torch_where:
  "length a = length c \<Longrightarrow> length b = length c \<Longrightarrow> n < length c \<Longrightarrow>
   torch_where c a b ! n = (if c ! n then a ! n else b ! n)"
  by (simp add: torch_where_def)

lemma length_masked_fill: "length m = length xs \<Longrightarrow> length (masked_fill xs m v) = length xs"
  by (simp add: masked_fill_def)

lemma nth_masked_fill:
  "length m = length xs \<Longrightarrow> n < length xs \<Longrightarrow>
   masked_fill xs m v ! n = (if m ! n then v else xs ! n)"
  by (simp add: masked_fill_def)

lemma length_scatter_value: "length (scatter_value base ind v) = length base"
  unfolding scatter_value_def by (induction ind arbitrary: base) simp_all

lemma nth_scatter_value:
  "n < length base \<Longrightarrow> scatter_value base ind v ! n = (if n \<in> set ind then v else base ! n)"
  unfolding scatter_value_def
proof (induction ind arbitrary: base)
  case Nil
  then show ?case by simp
next
  case (Cons i ind)
  have "n < length (base[i := v])" using Cons.prems by simp
  from Cons.IH [OF this] show ?case
    using Cons.prems by (auto simp: nth_list_update)
qed

lemma length_scatter: "length (scatter base ind val) = length base"
  unfolding scatter_def by (induction ind arbitrary: base val) (auto simp: zip_Cons1 split: list.splits)

lemma nth_scatter_map:
  "n < length base \<Longrightarrow>
   scatter base ind (map f ind) ! n = (if n \<in> set ind then f n else base ! n)"
  unfolding scatter_def
proof (induction ind arbitrary: base)
  case Nil
  then show ?case by simp
next
  case (Cons i ind)
  have "n < length (base[i := f i])" using Cons.prems by simp
  from Cons.IH [OF this] show ?case
    using Cons.prems by (auto simp: nth_list_update)
qed

text \<open>The selection made by \<open>topk_indices\<close>.\<close>

lemma topk_indices_Inr:
  "0 \<le> k \<Longrightarrow> k \<le> int (length xs) \<Longrightarrow>
   topk_indices xs k = Inr (take (nat k) (sort_key (\<lambda>i. - (xs ! i)) [0..<length xs]))"
  by (simp add: topk_indices_def)

lemma topk_sel:
  fixes xs :: "real list"
  assumes "idx = take k (sort_key (\<lambda>i. - (xs ! i)) [0..<length xs])" "k \<le> length xs"
  shows "distinct idx" "length idx = k" "set idx \<subseteq> {..<length xs}"
    "\<forall>i \<in> set idx. \<forall>j < length xs. j \<notin> set idx \<longrightarrow> xs ! j \<le> xs ! i"
proof -
  let ?f = "\<lambda>i. - (xs ! i)"
  let ?s = "sort_key ?f [0..<length xs]"
  have d: "distinct ?s" by simp
  have l: "length ?s = length xs" by simp
  have s: "set ?s = {..<length xs}" by auto
  show "distinct idx" using d assms by simp
  show "length idx = k" using l assms by simp
  show "set idx \<subseteq> {..<length xs}" using s assms set_take_subset by fastforce
  have srt: "sorted (map ?f ?s)" by (rule sorted_sort_key)
  have split: "?s = idx @ drop k ?s" using assms by simp
  have "sorted (map ?f idx @ map ?f (drop k ?s))"
    using srt split by (metis map_append)
  then have le: "\<forall>a \<in> set idx. \<forall>b \<in> set (drop k ?s). ?f a \<le> ?f b"
    by (auto simp: sorted_append)
  show "\<forall>i \<in> set idx. \<forall>j < length xs. j \<notin> set idx \<longrightarrow> xs ! j \<le> xs ! i"
  proof (intro ballI allI impI)
    fix i j assume i: "i \<in> set idx" and j: "j < length xs" "j \<notin> set idx"
    have "j \<in> set ?s" using s j by simp
    then have "j \<in> set idx \<union> set (drop k ?s)" using split by (metis set_append)
    then have "j \<in> set (drop k ?s)" using j by simp
    then have "?f i \<le> ?f j" using le i by blast
    then show "xs ! j \<le> xs ! i" by simp
  qed
qed

text \<open>The rounding of the examples has the properties of rounding to a double.\<close>

lemma binary64D:
  assumes "binary64 rnd"
  shows "x \<le> y \<Longrightarrow> rnd x \<le> rnd y"
    and "n \<le> 2 ^ 53 \<Longrightarrow> rnd (real n) = real n"
    and "rnd (1 / 2 ^ 53) = 1 / 2 ^ 53"
    and "rnd x = x \<Longrightarrow> x < 1 \<Longrightarrow> x \<le> 1 - 1 / 2 ^ 53"
  using assms unfolding binary64_def by blast+

lemma binary64_0: "binary64 rnd \<Longrightarrow> rnd 0 = 0"
  using binary64D(2) [of rnd 0] by simp

lemma binary64_1: "binary64 rnd \<Longrightarrow> rnd 1 = 1"
  using binary64D(2) [of rnd 1] by simp

lemma fixed53_int: "fixed53 (real_of_int m / 2 ^ 53) = real_of_int m / 2 ^ 53"
proof -
  have "\<lfloor>real_of_int m + 1 / 2\<rfloor> = m" by linarith
  then show ?thesis by (simp add: fixed53_def)
qed

lemma binary64_fixed53: "binary64 fixed53"
proof -
  have mono: "fixed53 x \<le> fixed53 y" if "x \<le> y" for x y
  proof -
    have "x * 2 ^ 53 + 1 / 2 \<le> y * 2 ^ 53 + 1 / 2" using that by simp
    then have "\<lfloor>x * 2 ^ 53 + 1 / 2\<rfloor> \<le> \<lfloor>y * 2 ^ 53 + 1 / 2\<rfloor>" by (rule floor_mono)
    then show ?thesis by (simp add: fixed53_def divide_right_mono)
  qed
  have nat: "fixed53 (real n) = real n" for n
    using fixed53_int [of "int n * 2 ^ 53"] by simp
  have small: "fixed53 (1 / 2 ^ 53) = 1 / 2 ^ 53"
    using fixed53_int [of 1] by simp
  have below: "x \<le> 1 - 1 / 2 ^ 53" if fx: "fixed53 x = x" and x: "x < 1" for x
  proof -
    define m where "m = \<lfloor>x * 2 ^ 53 + 1 / 2\<rfloor>"
    have xm: "x = real_of_int m / 2 ^ 53" using fx by (simp add: fixed53_def m_def)
    then have "real_of_int m < real_of_int (2 ^ 53)" using x by (simp add: divide_less_eq)
    then have "m < 2 ^ 53" by (simp only: of_int_less_iff)
    then have "m \<le> 2 ^ 53 - 1" by simp
    then have "real_of_int m \<le> real_of_int (2 ^ 53 - 1)" by (simp only: of_int_le_iff)
    then have "real_of_int m \<le> 2 ^ 53 - 1" by simp
    then have "real_of_int m / 2 ^ 53 \<le> (2 ^ 53 - 1) / 2 ^ 53"
      by (rule divide_right_mono) simp
    then show ?thesis using xm by (simp add: diff_divide_distrib)
  qed
  show ?thesis unfolding binary64_def using mono nat small below by blast
qed

lemma top_k_count_bounds:
  fixes thres :: real
  assumes b: "binary64 rnd" and t: "0 < thres" "thres \<le> 1" and V: "V \<le> 2 ^ 53"
  shows "0 \<le> \<lceil>rnd (rnd (1 - thres) * real V)\<rceil>"
    and "\<lceil>rnd (rnd (1 - thres) * real V)\<rceil> \<le> int V"
proof -
  have a0: "0 \<le> rnd (1 - thres)"
    using binary64D(1) [OF b, of 0 "1 - thres"] t by (simp add: binary64_0 [OF b])
  have a1: "rnd (1 - thres) \<le> 1"
    using binary64D(1) [OF b, of "1 - thres" 1] t by (simp add: binary64_1 [OF b])
  have p0: "0 \<le> rnd (1 - thres) * real V" using a0 by simp
  have "rnd (1 - thres) * real V \<le> 1 * real V"
    using a1 by (intro mult_right_mono) simp_all
  then have p1: "rnd (1 - thres) * real V \<le> real V" by simp
  have r0: "0 \<le> rnd (rnd (1 - thres) * real V)"
    using binary64D(1) [OF b p0] by (simp add: binary64_0 [OF b])
  have r1: "rnd (rnd (1 - thres) * real V) \<le> real V"
    using binary64D(1) [OF b p1] by (simp add: binary64D(2) [OF b V])
  show "0 \<le> \<lceil>rnd (rnd (1 - thres) * real V)\<rceil>"
    using r0 by (meson ceiling_mono ceiling_zero order_trans le_of_int_ceiling of_int_0_le_iff)
  show "\<lceil>rnd (rnd (1 - thres) * real V)\<rceil> \<le> int V"
    using r1 by (simp add: ceiling_le_iff)
qed

lemma top_k_count_pos:
  fixes thres :: real
  assumes b: "binary64 rnd" and d: "rnd thres = thres" and t: "thres < 1" and V: "0 < V"
  shows "0 < \<lceil>rnd (rnd (1 - thres) * real V)\<rceil>"
proof -
  define e :: real where "e = 1 / 2 ^ 53"
  have e0: "0 < e" by (simp add: e_def)
  have re: "rnd e = e" unfolding e_def by (rule binary64D(3) [OF b])
  have "thres \<le> 1 - e" unfolding e_def by (rule binary64D(4) [OF b d t])
  then have "e \<le> 1 - thres" by simp
  then have "rnd e \<le> rnd (1 - thres)" by (rule binary64D(1) [OF b])
  then have a: "e \<le> rnd (1 - thres)" by (simp only: re)
  have "1 \<le> real V" using V by simp
  then have "e * 1 \<le> rnd (1 - thres) * real V"
    using a e0 by (intro mult_mono) simp_all
  then have "e \<le> rnd (1 - thres) * real V" by simp
  then have "rnd e \<le> rnd (rnd (1 - thres) * real V)" by (rule binary64D(1) [OF b])
  then have "e \<le> rnd (rnd (1 - thres) * real V)" by (simp only: re)
  then have "0 < rnd (rnd (1 - thres) * real V)" using e0 by linarith
  then show ?thesis by simp
qed

lemma top_k_count_zero:
  assumes b: "binary64 rnd"
  shows "\<lceil>rnd (rnd (1 - 1) * real V)\<rceil> = 0"
  by (simp add: binary64_0 [OF b])

lemma top_k_result:
  fixes logits :: "real list" and thres :: real
  assumes "binary64 rnd" "0 < thres" "thres \<le> 1" "length logits \<le> 2 ^ 53"
  defines "k \<equiv> nat \<lceil>rnd (rnd (1 - thres) * real (length logits))\<rceil>"
  defines "idx \<equiv> take k (sort_key (\<lambda>i. - (logits ! i)) [0..<length logits])"
  shows "k \<le> length logits"
    and "top_k rnd logits thres =
           Inr (map (\<lambda>i. if i \<in> set idx then Some (logits ! i) else None) [0..<length logits])"
proof -
  let ?V = "real (length logits)"
  note lo = top_k_count_bounds(1) [OF assms(1-4)]
  note up = top_k_count_bounds(2) [OF assms(1-4)]
  show kV: "k \<le> length logits" unfolding k_def using up by (metis nat_le_iff)
  have tk: "topk_indices logits \<lceil>rnd (rnd (1 - thres) * ?V)\<rceil> = Inr idx"
    using topk_indices_Inr [OF lo up] by (simp add: idx_def k_def)
  have mm: "map Some (map (\<lambda>i. logits ! i) idx) = map (\<lambda>i. Some (logits ! i)) idx"
    by simp
  have "scatter (replicate (length logits) None) idx (map Some (map (\<lambda>i. logits ! i) idx))
        = map (\<lambda>i. if i \<in> set idx then Some (logits ! i) else None) [0..<length logits]"
    unfolding mm by (rule nth_equalityI) (simp_all add: length_scatter nth_scatter_map)
  then show "top_k rnd logits thres =
           Inr (map (\<lambda>i. if i \<in> set idx then Some (logits ! i) else None) [0..<length logits])"
    using tk by (simp add: top_k_def Let_def)
qed

lemma fixed53_half: "fixed53 (1 / 2) = 1 / 2"
  using fixed53_int [of "2 ^ 52"] by simp

lemma fixed53_zero: "fixed53 0 = 0"
  using fixed53_int [of 0] by simp

lemma fixed53_three_halves: "fixed53 (3 / 2) = 3 / 2"
  using fixed53_int [of "3 * 2 ^ 52"] by simp

section \<open>One step of the scheduler\<close>

lemma shaped_nth: "shaped N xs \<Longrightarrow> n < N \<Longrightarrow> length (xs ! n) = 8"
  by (simp add: shaped_def)

lemma shaped_length: "shaped N xs \<Longrightarrow> length xs = N"
  by (simp add: shaped_def)

lemma shaped_set_col:
  assumes "shaped N xs" "length vs = N"
  shows "shaped N (set_col l xs vs)"
proof -
  have "length (set_col l xs vs) = N" using assms by (simp add: set_col_def shaped_def)
  moreover have "length row = 8" if "row \<in> set (set_col l xs vs)" for row
  proof -
    from that obtain r v where "(r, v) \<in> set (zip xs vs)" "row = r[l := v]"
      by (auto simp: set_col_def)
    then show ?thesis using assms by (auto simp: shaped_def dest: set_zip_leftD)
  qed
  ultimately show ?thesis by (simp add: shaped_def)
qed

lemma col_set_col_same:
  assumes "shaped N xs" "length vs = N" "l < 8"
  shows "col l (set_col l xs vs) = vs"
proof (rule nth_equalityI)
  show "length (col l (set_col l xs vs)) = length vs"
    using assms by (simp add: length_col length_set_col shaped_def)
next
  fix n assume "n < length (col l (set_col l xs vs))"
  then have n: "n < N" using assms by (simp add: length_col length_set_col shaped_def)
  then show "col l (set_col l xs vs) ! n = vs ! n"
    using assms shaped_nth [OF assms(1) n]
    by (simp add: nth_col length_set_col nth_set_col shaped_def)
qed

lemma col_set_col_other:
  assumes "length vs = length xs" "l' \<noteq> l"
  shows "col l' (set_col l xs vs) = col l' xs"
proof (rule nth_equalityI)
  show "length (col l' (set_col l xs vs)) = length (col l' xs)"
    using assms by (simp add: length_col length_set_col)
next
  fix n assume "n < length (col l' (set_col l xs vs))"
  then have n: "n < length xs" using assms by (simp add: length_col length_set_col)
  then show "col l' (set_col l xs vs) ! n = col l' xs ! n"
    using assms by (simp add: nth_col length_set_col nth_set_col)
qed

lemma set_col_set_col:
  assumes "length a = length xs" "length b = length xs"
  shows "set_col l (set_col l xs a) b = set_col l xs b"
proof (rule nth_equalityI)
  show "length (set_col l (set_col l xs a) b) = length (set_col l xs b)"
    using assms by (simp add: length_set_col)
next
  fix n assume "n < length (set_col l (set_col l xs a) b)"
  then have n: "n < length xs" using assms by (simp add: length_set_col)
  then show "set_col l (set_col l xs a) b ! n = set_col l xs b ! n"
    using assms by (simp add: length_set_col nth_set_col)
qed

text \<open>The two branches of the loop body, with the buffers' columns written out.\<close>

lemma generate_step_zero:
  assumes "sample g (prompt @ seq) l = (ids, sc, g')"
    and "length ids = length seq" "length sc = length seq"
  shows "generate_step M sample prompt l 0 (g, seq, msk) =
           Inr (g', set_col l seq (torch_where (col l msk) ids (col l seq)), msk)"
  using assms by (simp add: generate_step_def)

lemma generate_step_pos:
  assumes smp: "sample g (prompt @ seq) l = (ids, sc, g')"
    and len: "length ids = N" "length sc = N"
    and sh: "shaped N seq" "shaped N msk" "l < 8"
    and c: "0 < c" "c \<le> int N"
  defines "fill \<equiv> torch_where (col l msk) ids (col l seq)"
  defines "sc1 \<equiv> masked_fill sc (map Not (col l msk)) neg_finfo_max"
  defines "idx \<equiv> take (nat c) (sort_key (\<lambda>i. - (sc1 ! i)) [0..<length sc1])"
  defines "mcol \<equiv> scatter_value (replicate N False) idx True"
  shows "generate_step M sample prompt l c (g, seq, msk) =
           Inr (g', set_col l seq (masked_fill fill mcol (mask_token_id M)), set_col l msk mcol)"
proof -
  have lseq: "length seq = N" and lmsk: "length msk = N"
    using sh by (simp_all add: shaped_def)
  have lsc1: "length sc1 = N"
    by (simp add: sc1_def length_masked_fill length_col lmsk len)
  have tk: "topk_indices sc1 c = Inr idx"
    using c lsc1 by (simp add: topk_indices_def idx_def)
  have lfill: "length fill = N"
    by (simp add: fill_def length_torch_where length_col lmsk lseq len)
  have lmcol: "length mcol = N" by (simp add: mcol_def length_scatter_value)
  have c1: "col l (set_col l seq fill) = fill"
    by (rule col_set_col_same [OF sh(1) lfill sh(3)])
  have c2: "col l (set_col l msk mcol) = mcol"
    by (rule col_set_col_same [OF sh(2) lmcol sh(3)])
  have c3: "set_col l (set_col l seq fill) (masked_fill fill mcol (mask_token_id M))
            = set_col l seq (masked_fill fill mcol (mask_token_id M))"
    by (rule set_col_set_col) (simp_all add: lfill lseq length_masked_fill lmcol)
  have "generate_step M sample prompt l c (g, seq, msk) =
     Inr (g', set_col l (set_col l seq fill)
                (masked_fill (col l (set_col l seq fill)) (col l (set_col l msk mcol))
                   (mask_token_id M)),
          set_col l msk mcol)"
    using c(1) smp len lseq tk
    by (simp add: generate_step_def Let_def fill_def [symmetric] sc1_def [symmetric]
                  lsc1 mcol_def [symmetric])
  then show ?thesis by (simp only: c1 c2 c3)
qed

text \<open>What one step does to every position of its level, and that it touches no other level.\<close>

lemma generate_step_pointwise:
  assumes smp: "sample g (prompt @ seq) l = (ids, sc, g')"
    and len: "length ids = N" "length sc = N"
    and sh: "shaped N seq" "shaped N msk" "l < 8"
    and c: "0 \<le> c" "c \<le> int N"
  shows "\<exists>seq' msk' idx.
      generate_step M sample prompt l c (g, seq, msk) = Inr (g', seq', msk') \<and>
      shaped N seq' \<and> shaped N msk' \<and>
      (\<forall>l'. l' \<noteq> l \<longrightarrow> col l' seq' = col l' seq \<and> col l' msk' = col l' msk) \<and>
      distinct idx \<and> length idx = nat c \<and> set idx \<subseteq> {..<N} \<and>
      (\<forall>i \<in> set idx. \<forall>j < N. j \<notin> set idx \<longrightarrow>
         (if msk ! j ! l then sc ! j else neg_finfo_max)
           \<le> (if msk ! i ! l then sc ! i else neg_finfo_max)) \<and>
      (\<forall>n < N. msk' ! n ! l = (if c = 0 then msk ! n ! l else n \<in> set idx)) \<and>
      (\<forall>n < N. seq' ! n ! l =
         (if c \<noteq> 0 \<and> n \<in> set idx then mask_token_id M
          else if msk ! n ! l then ids ! n else seq ! n ! l))"
proof -
  define fill where "fill = torch_where (col l msk) ids (col l seq)"
  define sc1 where "sc1 = masked_fill sc (map Not (col l msk)) neg_finfo_max"
  define idx where "idx = take (nat c) (sort_key (\<lambda>i. - (sc1 ! i)) [0..<length sc1])"
  define mcol where "mcol = scatter_value (replicate N False) idx True"
  have lseq: "length seq = N" and lmsk: "length msk = N"
    using sh by (simp_all add: shaped_def)
  have lsc1: "length sc1 = N"
    by (simp add: sc1_def length_masked_fill length_col lmsk len)
  have lfill: "length fill = N"
    by (simp add: fill_def length_torch_where length_col lmsk lseq len)
  have lmcol: "length mcol = N" by (simp add: mcol_def length_scatter_value)
  have nfill: "fill ! n = (if msk ! n ! l then ids ! n else seq ! n ! l)" if "n < N" for n
    using that by (simp add: fill_def nth_torch_where length_col nth_col lmsk lseq len)
  have nsc1: "sc1 ! n = (if msk ! n ! l then sc ! n else neg_finfo_max)" if "n < N" for n
    using that by (simp add: sc1_def nth_masked_fill length_col nth_col lmsk len)
  have nmcol: "mcol ! n = (n \<in> set idx)" if "n < N" for n
    using that by (simp add: mcol_def nth_scatter_value)
  have kN: "nat c \<le> length sc1" using c lsc1 by simp
  note sel = topk_sel [OF idx_def kN]
  have sel3: "set idx \<subseteq> {..<N}" using sel(3) lsc1 by simp
  have sel4: "\<forall>i \<in> set idx. \<forall>j < N. j \<notin> set idx \<longrightarrow>
         (if msk ! j ! l then sc ! j else neg_finfo_max)
           \<le> (if msk ! i ! l then sc ! i else neg_finfo_max)"
  proof (intro ballI allI impI)
    fix i j assume i: "i \<in> set idx" and j: "j < N" "j \<notin> set idx"
    have iN: "i < N" using i sel3 by auto
    have "sc1 ! j \<le> sc1 ! i" using sel(4) i j lsc1 by simp
    then show "(if msk ! j ! l then sc ! j else neg_finfo_max)
           \<le> (if msk ! i ! l then sc ! i else neg_finfo_max)"
      by (simp only: nsc1 [OF iN] nsc1 [OF j(1)])
  qed
  show ?thesis
  proof (cases "c = 0")
    case True
    define seq' where "seq' = set_col l seq fill"
    have eq: "generate_step M sample prompt l c (g, seq, msk) = Inr (g', seq', msk)"
      using generate_step_zero [of sample g prompt seq l ids sc g' M msk] smp len lseq
      by (simp add: True seq'_def fill_def)
    have s1: "shaped N seq'" unfolding seq'_def by (rule shaped_set_col [OF sh(1) lfill])
    have o: "\<forall>l'. l' \<noteq> l \<longrightarrow> col l' seq' = col l' seq \<and> col l' msk = col l' msk"
      by (simp add: seq'_def col_set_col_other lfill lseq)
    have cs: "col l seq' = fill" unfolding seq'_def by (rule col_set_col_same [OF sh(1) lfill sh(3)])
    have ps: "\<forall>n < N. seq' ! n ! l =
         (if c \<noteq> 0 \<and> n \<in> set idx then mask_token_id M
          else if msk ! n ! l then ids ! n else seq ! n ! l)"
    proof (intro allI impI)
      fix n assume n: "n < N"
      have "seq' ! n ! l = col l seq' ! n" using n s1 by (simp add: nth_col shaped_def)
      then show "seq' ! n ! l =
         (if c \<noteq> 0 \<and> n \<in> set idx then mask_token_id M
          else if msk ! n ! l then ids ! n else seq ! n ! l)"
        using True cs nfill [OF n] by simp
    qed
    have pm: "\<forall>n < N. msk ! n ! l = (if c = 0 then msk ! n ! l else n \<in> set idx)"
      using True by simp
    show ?thesis using eq s1 sh(2) o sel(1,2) sel3 sel4 pm ps by blast
  next
    case False
    then have cpos: "0 < c" using c by simp
    define seq' where "seq' = set_col l seq (masked_fill fill mcol (mask_token_id M))"
    define msk' where "msk' = set_col l msk mcol"
    have eq: "generate_step M sample prompt l c (g, seq, msk) = Inr (g', seq', msk')"
      using generate_step_pos [of sample g prompt seq l ids sc g' N msk c M] smp len sh cpos c(2)
      by (simp add: seq'_def msk'_def mcol_def idx_def sc1_def fill_def)
    have lmf: "length (masked_fill fill mcol (mask_token_id M)) = N"
      by (simp add: length_masked_fill lfill lmcol)
    have s1: "shaped N seq'" unfolding seq'_def by (rule shaped_set_col [OF sh(1) lmf])
    have s2: "shaped N msk'" unfolding msk'_def by (rule shaped_set_col [OF sh(2) lmcol])
    have o: "\<forall>l'. l' \<noteq> l \<longrightarrow> col l' seq' = col l' seq \<and> col l' msk' = col l' msk"
      by (simp add: seq'_def msk'_def col_set_col_other lmf lseq lmcol lmsk)
    have cs: "col l seq' = masked_fill fill mcol (mask_token_id M)"
      unfolding seq'_def by (rule col_set_col_same [OF sh(1) lmf sh(3)])
    have cm: "col l msk' = mcol"
      unfolding msk'_def by (rule col_set_col_same [OF sh(2) lmcol sh(3)])
    have pm: "\<forall>n < N. msk' ! n ! l = (if c = 0 then msk ! n ! l else n \<in> set idx)"
    proof (intro allI impI)
      fix n assume n: "n < N"
      have "msk' ! n ! l = col l msk' ! n" using n s2 by (simp add: nth_col shaped_def)
      then show "msk' ! n ! l = (if c = 0 then msk ! n ! l else n \<in> set idx)"
        using False cm nmcol [OF n] by simp
    qed
    have ps: "\<forall>n < N. seq' ! n ! l =
         (if c \<noteq> 0 \<and> n \<in> set idx then mask_token_id M
          else if msk ! n ! l then ids ! n else seq ! n ! l)"
    proof (intro allI impI)
      fix n assume n: "n < N"
      have "seq' ! n ! l = col l seq' ! n" using n s1 by (simp add: nth_col shaped_def)
      also have "\<dots> = (if mcol ! n then mask_token_id M else fill ! n)"
        using n by (simp add: cs nth_masked_fill lfill lmcol)
      finally show "seq' ! n ! l =
         (if c \<noteq> 0 \<and> n \<in> set idx then mask_token_id M
          else if msk ! n ! l then ids ! n else seq ! n ! l)"
        using False nmcol [OF n] nfill [OF n] by simp
    qed
    show ?thesis using eq s1 s2 o sel(1,2) sel3 sel4 pm ps by blast
  qed
qed

section \<open>The cosine schedule\<close>

lemma length_all_mask_num_tokens: "length (all_mask_num_tokens S N) = S"
  by (simp add: all_mask_num_tokens_def linspace_def)

lemma schedule_angle:
  assumes "i \<le> S"
  shows "0 \<le> pi / 2 * (real i / real S)" "pi / 2 * (real i / real S) \<le> pi / 2"
proof -
  show "0 \<le> pi / 2 * (real i / real S)" by simp
  have "real i / real S \<le> 1" using assms by (cases "S = 0") simp_all
  then have "pi / 2 * (real i / real S) \<le> pi / 2 * 1"
    by (intro mult_left_mono) simp_all
  then show "pi / 2 * (real i / real S) \<le> pi / 2" by simp
qed

lemma schedule_cos_bounds:
  assumes "i \<le> S"
  shows "0 \<le> cos (pi / 2 * (real i / real S))" "cos (pi / 2 * (real i / real S)) \<le> 1"
proof -
  show "0 \<le> cos (pi / 2 * (real i / real S))"
    using schedule_angle [OF assms] by (intro cos_ge_zero) linarith+
  show "cos (pi / 2 * (real i / real S)) \<le> 1" by simp
qed

lemma nth_all_mask_num_tokens:
  assumes "i < S"
  shows "all_mask_num_tokens S N ! i = \<lfloor>cos (pi / 2 * (real (Suc i) / real S)) * real N\<rfloor>"
proof -
  have a: "(0 + (1 - 0) * real (Suc i) / real S) * pi * 0.5 = pi / 2 * (real (Suc i) / real S)"
    by (simp add: mult.commute)
  have "0 \<le> cos (pi / 2 * (real (Suc i) / real S)) * real N"
    using schedule_cos_bounds(1) [of "Suc i" S] assms by simp
  then have "long (cos (pi / 2 * (real (Suc i) / real S)) * real N)
             = \<lfloor>cos (pi / 2 * (real (Suc i) / real S)) * real N\<rfloor>"
    by (simp add: long_def)
  moreover have "all_mask_num_tokens S N ! i
     = long (cosine_schedule (0 + (1 - 0) * real (Suc i) / real S) * real N)"
  proof -
    have "drop 1 (linspace 0 1 (S + 1))
          = map (\<lambda>i. 0 + (1 - 0) * real i / real S) [1..<Suc S]"
      by (simp add: linspace_def drop_map del: upt_Suc)
    moreover have "map (\<lambda>i. 0 + (1 - 0) * real i / real S) [1..<Suc S] ! i
          = 0 + (1 - 0) * real (Suc i) / real S"
      using assms by (simp del: upt_Suc)
    moreover have "i < length (drop 1 (linspace 0 1 (S + 1)))"
      using assms by (simp add: linspace_def)
    ultimately show ?thesis
      by (simp add: all_mask_num_tokens_def Let_def del: upt_Suc)
  qed
  ultimately show ?thesis by (simp only: cosine_schedule_def a)
qed

lemma schedule_bounds:
  assumes "c \<in> set (all_mask_num_tokens S N)"
  shows "0 \<le> c" "c \<le> int N"
proof -
  from assms obtain i where i: "i < S" "c = all_mask_num_tokens S N ! i"
    by (auto simp: in_set_conv_nth length_all_mask_num_tokens)
  let ?x = "cos (pi / 2 * (real (Suc i) / real S))"
  have c: "c = \<lfloor>?x * real N\<rfloor>" using i nth_all_mask_num_tokens by simp
  have b: "0 \<le> ?x" "?x \<le> 1" using schedule_cos_bounds [of "Suc i" S] i by simp_all
  have "0 \<le> ?x * real N" using b by simp
  then show "0 \<le> c" using c by simp
  have "?x * real N \<le> 1 * real N" using b by (intro mult_right_mono) simp_all
  then have "?x * real N \<le> real_of_int (int N)" by simp
  then have "\<lfloor>?x * real N\<rfloor> \<le> int N" by (simp add: floor_le_iff)
  then show "c \<le> int N" using c by simp
qed

lemma schedule_antimono:
  assumes "i \<le> j" "j < S"
  shows "all_mask_num_tokens S N ! j \<le> all_mask_num_tokens S N ! i"
proof -
  have "real (Suc i) / real S \<le> real (Suc j) / real S"
    using assms by (simp add: divide_right_mono)
  then have le: "pi / 2 * (real (Suc i) / real S) \<le> pi / 2 * (real (Suc j) / real S)"
    by (intro mult_left_mono) simp_all
  have "pi / 2 * (real (Suc j) / real S) \<le> pi / 2"
    using schedule_angle(2) [of "Suc j" S] assms by simp
  then have "pi / 2 * (real (Suc j) / real S) \<le> pi" using pi_ge_zero by linarith
  then have "cos (pi / 2 * (real (Suc j) / real S)) \<le> cos (pi / 2 * (real (Suc i) / real S))"
    using le by (intro cos_monotone_0_pi_le) simp_all
  then have "cos (pi / 2 * (real (Suc j) / real S)) * real N
             \<le> cos (pi / 2 * (real (Suc i) / real S)) * real N"
    by (intro mult_right_mono) simp_all
  then show ?thesis
    using assms by (simp add: nth_all_mask_num_tokens floor_mono)
qed

lemma schedule_last:
  assumes "0 < S"
  shows "last (all_mask_num_tokens S N) = 0"
proof -
  have ne: "all_mask_num_tokens S N \<noteq> []"
    using assms length_all_mask_num_tokens [of S N] by auto
  have "last (all_mask_num_tokens S N) = all_mask_num_tokens S N ! (S - 1)"
    using ne by (simp add: last_conv_nth length_all_mask_num_tokens)
  also have "\<dots> = \<lfloor>cos (pi / 2 * (real (Suc (S - 1)) / real S)) * real N\<rfloor>"
    using assms by (intro nth_all_mask_num_tokens) simp
  also have "real (Suc (S - 1)) / real S = 1" using assms by simp
  finally show ?thesis by simp
qed

section \<open>The inner and outer iteration of the scheduler\<close>

lemma sampler_okD:
  assumes "sampler_ok sample N" "sample g x l = (ids, sc, g')"
  shows "length ids = N" "length sc = N" "\<forall>i \<in> set ids. i < 1025"
    "\<forall>s \<in> set sc. 0 \<le> s \<and> s \<le> 1"
  using assms unfolding sampler_ok_def by (metis (mono_tags, lifting) case_prod_conv)+

lemma masked_count_card:
  assumes "shaped N msk"
  shows "masked_count l msk = card {n. n < N \<and> msk ! n ! l}"
proof -
  have "masked_count l msk = card {n. n < length (col l msk) \<and> col l msk ! n}"
    unfolding masked_count_def by (rule length_filter_conv_card)
  also have "{n. n < length (col l msk) \<and> col l msk ! n} = {n. n < N \<and> msk ! n ! l}"
    using assms by (auto simp: length_col nth_col shaped_def)
  finally show ?thesis .
qed

lemma mask_id_count_card:
  assumes "shaped N seq"
  shows "mask_id_count M l seq = card {n. n < N \<and> seq ! n ! l = mask_token_id M}"
proof -
  have "mask_id_count M l seq = length (filter ((=) (mask_token_id M)) (col l seq))"
    unfolding mask_id_count_def by (rule count_list_eq_length_filter)
  also have "\<dots> = card {n. n < length (col l seq) \<and> mask_token_id M = col l seq ! n}"
    by (rule length_filter_conv_card)
  also have "{n. n < length (col l seq) \<and> mask_token_id M = col l seq ! n}
             = {n. n < N \<and> seq ! n ! l = mask_token_id M}"
    using assms by (auto simp: length_col nth_col shaped_def)
  finally show ?thesis .
qed

lemma generate_steps_append:
  "generate_steps M sample prompt l (cs @ ds) st =
     (case generate_steps M sample prompt l cs st of
        Inl e \<Rightarrow> Inl e
      | Inr st' \<Rightarrow> generate_steps M sample prompt l ds st')"
  by (induction cs arbitrary: st) (auto split: sum.splits)

lemma generate_levels_append:
  "generate_levels M sample prompt N (ls @ ms) st =
     (case generate_levels M sample prompt N ls st of
        Inl e \<Rightarrow> Inl e
      | Inr st' \<Rightarrow> generate_levels M sample prompt N ms st')"
  by (induction ls arbitrary: st) (auto split: sum.splits)

text \<open>A step with a count between 0 and \<open>N\<close> returns, keeps the shapes and the other levels.\<close>

lemma generate_step_frame:
  assumes ok: "sampler_ok sample N"
    and sh: "shaped N seq" "shaped N msk" "l < 8"
    and c: "0 \<le> c" "c \<le> int N"
  shows "\<exists>g' seq' msk'.
      generate_step M sample prompt l c (g, seq, msk) = Inr (g', seq', msk') \<and>
      shaped N seq' \<and> shaped N msk' \<and>
      (\<forall>l'. l' \<noteq> l \<longrightarrow> col l' seq' = col l' seq \<and> col l' msk' = col l' msk)"
proof -
  obtain ids sc g' where smp: "sample g (prompt @ seq) l = (ids, sc, g')"
    by (cases "sample g (prompt @ seq) l") auto
  note d = sampler_okD [OF ok smp]
  from generate_step_pointwise [of sample g prompt seq l ids sc g' N msk c M, OF smp d(1,2) sh c]
  show ?thesis by blast
qed

lemma generate_steps_frame:
  assumes ok: "sampler_ok sample N" and l: "l < 8"
    and cs: "\<forall>c \<in> set cs. 0 \<le> c \<and> c \<le> int N"
    and sh: "shaped N seq" "shaped N msk"
  shows "\<exists>g' seq' msk'.
      generate_steps M sample prompt l cs (g, seq, msk) = Inr (g', seq', msk') \<and>
      shaped N seq' \<and> shaped N msk' \<and>
      (\<forall>l'. l' \<noteq> l \<longrightarrow> col l' seq' = col l' seq \<and> col l' msk' = col l' msk)"
  using cs sh
proof (induction cs arbitrary: g seq msk)
  case Nil
  then show ?case by simp
next
  case (Cons c cs)
  have c: "0 \<le> c" "c \<le> int N" using Cons.prems(1) by simp_all
  from generate_step_frame [OF ok Cons.prems(2,3) l c, of M prompt g]
  obtain g1 seq1 msk1 where
    st: "generate_step M sample prompt l c (g, seq, msk) = Inr (g1, seq1, msk1)"
    and sh1: "shaped N seq1" "shaped N msk1"
    and fr1: "\<forall>l'. l' \<noteq> l \<longrightarrow> col l' seq1 = col l' seq \<and> col l' msk1 = col l' msk"
    by blast
  have cs': "\<forall>c \<in> set cs. 0 \<le> c \<and> c \<le> int N" using Cons.prems(1) by simp
  from Cons.IH [OF cs' sh1, of g1]
  obtain g2 seq2 msk2 where
    st2: "generate_steps M sample prompt l cs (g1, seq1, msk1) = Inr (g2, seq2, msk2)"
    and sh2: "shaped N seq2" "shaped N msk2"
    and fr2: "\<forall>l'. l' \<noteq> l \<longrightarrow> col l' seq2 = col l' seq1 \<and> col l' msk2 = col l' msk1"
    by blast
  have "generate_steps M sample prompt l (c # cs) (g, seq, msk) = Inr (g2, seq2, msk2)"
    using st st2 by simp
  moreover have "\<forall>l'. l' \<noteq> l \<longrightarrow> col l' seq2 = col l' seq \<and> col l' msk2 = col l' msk"
    using fr1 fr2 by simp
  ultimately show ?case using sh2 by blast
qed

lemma schedule_in_range:
  "\<forall>c \<in> set (all_mask_num_tokens S N). 0 \<le> c \<and> c \<le> int N"
  using schedule_bounds by blast

lemma schedule_take_in_range:
  "\<forall>c \<in> set (take i (all_mask_num_tokens S N)). 0 \<le> c \<and> c \<le> int N"
  using schedule_bounds by (meson in_set_takeD)

lemma generate_level_frame:
  assumes ok: "sampler_ok sample N" and l: "l < 8" "l < length (steps M)"
    and sh: "shaped N seq" "shaped N msk"
  shows "\<exists>g' seq' msk'.
      generate_level M sample prompt N l (g, seq, msk) = Inr (g', seq', msk') \<and>
      shaped N seq' \<and> shaped N msk' \<and>
      (\<forall>l'. l' \<noteq> l \<longrightarrow> col l' seq' = col l' seq \<and> col l' msk' = col l' msk)"
  using generate_steps_frame [OF ok l(1) schedule_in_range sh, of M prompt "steps M ! l" g] l(2)
  by (simp add: generate_level_def)

lemma generate_levels_frame:
  assumes ok: "sampler_ok sample N"
    and ls: "\<forall>l \<in> set ls. l < 8 \<and> l < length (steps M)"
    and sh: "shaped N seq" "shaped N msk"
  shows "\<exists>g' seq' msk'.
      generate_levels M sample prompt N ls (g, seq, msk) = Inr (g', seq', msk') \<and>
      shaped N seq' \<and> shaped N msk' \<and>
      (\<forall>l'. l' \<notin> set ls \<longrightarrow> col l' seq' = col l' seq \<and> col l' msk' = col l' msk)"
  using ls sh
proof (induction ls arbitrary: g seq msk)
  case Nil
  then show ?case by simp
next
  case (Cons l ls)
  have l: "l < 8" "l < length (steps M)" using Cons.prems(1) by simp_all
  from generate_level_frame [OF ok l Cons.prems(2,3), of prompt g]
  obtain g1 seq1 msk1 where
    st: "generate_level M sample prompt N l (g, seq, msk) = Inr (g1, seq1, msk1)"
    and sh1: "shaped N seq1" "shaped N msk1"
    and fr1: "\<forall>l'. l' \<noteq> l \<longrightarrow> col l' seq1 = col l' seq \<and> col l' msk1 = col l' msk"
    by blast
  have ls': "\<forall>l \<in> set ls. l < 8 \<and> l < length (steps M)" using Cons.prems(1) by simp
  from Cons.IH [OF ls' sh1, of g1]
  obtain g2 seq2 msk2 where
    st2: "generate_levels M sample prompt N ls (g1, seq1, msk1) = Inr (g2, seq2, msk2)"
    and sh2: "shaped N seq2" "shaped N msk2"
    and fr2: "\<forall>l'. l' \<notin> set ls \<longrightarrow> col l' seq2 = col l' seq1 \<and> col l' msk2 = col l' msk1"
    by blast
  have "generate_levels M sample prompt N (l # ls) (g, seq, msk) = Inr (g2, seq2, msk2)"
    using st st2 by simp
  moreover have "\<forall>l'. l' \<notin> set (l # ls) \<longrightarrow> col l' seq2 = col l' seq \<and> col l' msk2 = col l' msk"
    using fr1 fr2 by simp
  ultimately show ?case using sh2 by blast
qed

lemma shaped_init: "shaped N (init_seq M N)" "shaped N (init_mask N)"
  by (simp_all add: shaped_def init_seq_def init_mask_def)

lemma col_init:
  "l < 8 \<Longrightarrow> col l (init_seq M N) = replicate N (mask_token_id M)"
  "l < 8 \<Longrightarrow> col l (init_mask N) = replicate N True"
  by (simp_all add: col_def init_seq_def init_mask_def)

text \<open>The state in which the outer loop reaches level \<open>k\<close>: the level is still untouched.\<close>

lemma level_start:
  assumes ok: "sampler_ok sample N" and k: "k < 8" "k \<le> length (steps M)"
  shows "\<exists>g seq msk.
      generate_levels M sample prompt N [0..<k] (g0, init_seq M N, init_mask N) = Inr (g, seq, msk) \<and>
      shaped N seq \<and> shaped N msk \<and>
      (\<forall>l. k \<le> l \<and> l < 8 \<longrightarrow>
         col l seq = replicate N (mask_token_id M) \<and> col l msk = replicate N True)"
proof -
  have ls: "\<forall>l \<in> set [0..<k]. l < 8 \<and> l < length (steps M)" using k by auto
  from generate_levels_frame [OF ok ls shaped_init, of prompt g0]
  obtain g seq msk where
    st: "generate_levels M sample prompt N [0..<k] (g0, init_seq M N, init_mask N) = Inr (g, seq, msk)"
    and sh: "shaped N seq" "shaped N msk"
    and fr: "\<forall>l'. l' \<notin> set [0..<k] \<longrightarrow>
               col l' seq = col l' (init_seq M N) \<and> col l' msk = col l' (init_mask N)"
    by blast
  have "\<forall>l. k \<le> l \<and> l < 8 \<longrightarrow>
         col l seq = replicate N (mask_token_id M) \<and> col l msk = replicate N True"
    using fr by (auto simp: col_init)
  then show ?thesis using st sh by blast
qed

section \<open>Invariants of the level being decoded\<close>

lemma init_mask_token_id: "SoundStorm_init cfg = Inr M \<Longrightarrow> mask_token_id M = 1025"
  by (auto simp: SoundStorm_init_def split: if_splits)

lemma step_after_target:
  assumes mid: "mask_token_id M = 1025"
    and ok: "sampler_ok sample N"
    and sh: "shaped N seq" "shaped N msk" "l < 8"
    and c: "0 \<le> c" "c \<le> int N"
    and inv: "resolved_unless_flagged M N l seq msk"
    and st: "generate_step M sample prompt l c (g, seq, msk) = Inr (g', seq', msk')"
  shows "after_target M N l c seq' msk'"
proof -
  obtain ids sc g1 where smp: "sample g (prompt @ seq) l = (ids, sc, g1)"
    by (cases "sample g (prompt @ seq) l") auto
  note d = sampler_okD [OF ok smp]
  from generate_step_pointwise [of sample g prompt seq l ids sc g1 N msk c M, OF smp d(1,2) sh c] st
  obtain idx where
    sh': "shaped N msk'"
    and idx: "distinct idx" "length idx = nat c" "set idx \<subseteq> {..<N}"
    and pm: "\<forall>n < N. msk' ! n ! l = (if c = 0 then msk ! n ! l else n \<in> set idx)"
    and ps: "\<forall>n < N. seq' ! n ! l =
         (if c \<noteq> 0 \<and> n \<in> set idx then mask_token_id M
          else if msk ! n ! l then ids ! n else seq ! n ! l)"
    by auto
  have fill: "(if msk ! n ! l then ids ! n else seq ! n ! l) < mask_token_id M" if "n < N" for n
  proof (cases "msk ! n ! l")
    case True
    have "ids ! n \<in> set ids" using that d(1) by simp
    then show ?thesis using True d(3) mid by auto
  next
    case False
    then show ?thesis using inv that by (simp add: resolved_unless_flagged_def)
  qed
  have r: "resolved_unless_flagged M N l seq' msk'"
    unfolding resolved_unless_flagged_def
  proof (intro allI impI)
    fix n assume n: "n < N" and nm: "\<not> msk' ! n ! l"
    show "seq' ! n ! l < mask_token_id M"
    proof (cases "c = 0")
      case True
      then show ?thesis using ps n fill [OF n] by simp
    next
      case False
      then have "n \<notin> set idx" using pm n nm by simp
      then show ?thesis using ps n fill [OF n] by simp
    qed
  qed
  have z: "c = 0 \<longrightarrow> (\<forall>n < N. seq' ! n ! l < mask_token_id M)"
    using ps fill by simp
  have p: "c \<noteq> 0 \<longrightarrow> (\<forall>n < N. msk' ! n ! l \<longleftrightarrow> seq' ! n ! l = mask_token_id M) \<and>
                 int (masked_count l msk') = c"
  proof (intro impI conjI allI)
    fix n assume c0: "c \<noteq> 0" and n: "n < N"
    show "msk' ! n ! l \<longleftrightarrow> seq' ! n ! l = mask_token_id M"
      using pm ps n c0 fill [OF n] by auto
  next
    assume c0: "c \<noteq> 0"
    have "{n. n < N \<and> msk' ! n ! l} = set idx" using pm c0 idx(3) by auto
    then have "masked_count l msk' = card (set idx)"
      by (simp add: masked_count_card [OF sh'])
    also have "\<dots> = nat c" using idx(1,2) by (simp add: distinct_card)
    finally show "int (masked_count l msk') = c" using c(1) by simp
  qed
  show ?thesis unfolding after_target_def using r p z by blast
qed

lemma after_target_resolved:
  "after_target M N l c seq msk \<Longrightarrow> resolved_unless_flagged M N l seq msk"
  by (simp add: after_target_def)

lemma steps_after_target:
  assumes mid: "mask_token_id M = 1025"
    and ok: "sampler_ok sample N" and l: "l < 8"
    and cs: "\<forall>c \<in> set cs. 0 \<le> c \<and> c \<le> int N" "cs \<noteq> []"
    and sh: "shaped N seq" "shaped N msk"
    and inv: "resolved_unless_flagged M N l seq msk"
    and st: "generate_steps M sample prompt l cs (g, seq, msk) = Inr (g', seq', msk')"
  shows "after_target M N l (last cs) seq' msk'"
  using cs sh inv st
proof (induction cs arbitrary: g seq msk)
  case Nil
  then show ?case by simp
next
  case (Cons c cs)
  have c: "0 \<le> c" "c \<le> int N" using Cons.prems(1) by simp_all
  from generate_step_frame [OF ok Cons.prems(3,4) l c, of M prompt g]
  obtain g1 seq1 msk1 where
    s1: "generate_step M sample prompt l c (g, seq, msk) = Inr (g1, seq1, msk1)"
    and sh1: "shaped N seq1" "shaped N msk1"
    by blast
  have a1: "after_target M N l c seq1 msk1"
    by (rule step_after_target [OF mid ok Cons.prems(3,4) l c Cons.prems(5) s1])
  have rest: "generate_steps M sample prompt l cs (g1, seq1, msk1) = Inr (g', seq', msk')"
    using Cons.prems(6) s1 by simp
  show ?case
  proof (cases "cs = []")
    case True
    then show ?thesis using rest a1 by simp
  next
    case False
    have cs': "\<forall>c \<in> set cs. 0 \<le> c \<and> c \<le> int N" using Cons.prems(1) by simp
    from Cons.IH [OF cs' False sh1 after_target_resolved [OF a1] rest]
    show ?thesis using False by simp
  qed
qed

lemma after_target_mask_id_count:
  assumes "shaped N seq" "shaped N msk" "after_target M N l c seq msk" "0 \<le> c"
  shows "int (mask_id_count M l seq) = c"
proof (cases "c = 0")
  case True
  then have "{n. n < N \<and> seq ! n ! l = mask_token_id M} = {}"
    using assms(3) by (auto simp: after_target_def)
  then show ?thesis using True by (simp add: mask_id_count_card [OF assms(1)])
next
  case False
  then have "{n. n < N \<and> seq ! n ! l = mask_token_id M} = {n. n < N \<and> msk ! n ! l}"
    using assms(3) by (auto simp: after_target_def)
  then have "mask_id_count M l seq = masked_count l msk"
    by (simp add: mask_id_count_card [OF assms(1)] masked_count_card [OF assms(2)])
  then show ?thesis using False assms(3) by (simp add: after_target_def)
qed

lemma untouched_level:
  assumes "shaped N seq" "shaped N msk"
    and "col l seq = replicate N (mask_token_id M)" "col l msk = replicate N True"
  shows "resolved_unless_flagged M N l seq msk"
    and "mask_id_count M l seq = N" and "masked_count l msk = N"
    and "\<forall>n < N. msk ! n ! l"
proof -
  have m: "msk ! n ! l" if "n < N" for n
  proof -
    have "msk ! n ! l = col l msk ! n" using that assms(2) by (simp add: nth_col shaped_def)
    then show ?thesis using that assms(4) by simp
  qed
  then show "\<forall>n < N. msk ! n ! l" by simp
  show "resolved_unless_flagged M N l seq msk"
    using m by (simp add: resolved_unless_flagged_def)
  have "count_list (replicate k v) v = k" for k and v :: nat
    by (induction k) simp_all
  then show "mask_id_count M l seq = N"
    by (simp add: mask_id_count_def assms(3))
  show "masked_count l msk = N"
    by (simp add: masked_count_def assms(4))
qed

lemma neg_finfo_max_neg: "neg_finfo_max < 0"
  by (simp add: neg_finfo_max_def)

lemma step_remask_subset:
  assumes ok: "sampler_ok sample N"
    and sh: "shaped N seq" "shaped N msk" "l < 8"
    and c: "0 \<le> c" "c \<le> int (masked_count l msk)"
    and st: "generate_step M sample prompt l c (g, seq, msk) = Inr (g', seq', msk')"
  shows "\<forall>n < N. msk' ! n ! l \<longrightarrow> msk ! n ! l"
proof (cases "c = 0")
  case True
  obtain ids sc g1 where smp: "sample g (prompt @ seq) l = (ids, sc, g1)"
    by (cases "sample g (prompt @ seq) l") auto
  note d = sampler_okD [OF ok smp]
  have cN: "c \<le> int N" using True by simp
  from generate_step_pointwise [of sample g prompt seq l ids sc g1 N msk c M, OF smp d(1,2) sh c(1) cN] st
  show ?thesis using True by auto
next
  case False
  obtain ids sc g1 where smp: "sample g (prompt @ seq) l = (ids, sc, g1)"
    by (cases "sample g (prompt @ seq) l") auto
  note d = sampler_okD [OF ok smp]
  let ?F = "{n. n < N \<and> msk ! n ! l}"
  have mc: "masked_count l msk = card ?F" by (rule masked_count_card [OF sh(2)])
  have fin: "finite ?F" by simp
  have "card ?F \<le> card {..<N}" by (intro card_mono) auto
  then have cN: "c \<le> int N" using c(2) mc by simp
  from generate_step_pointwise [of sample g prompt seq l ids sc g1 N msk c M, OF smp d(1,2) sh c(1) cN] st
  obtain idx where
    idx: "distinct idx" "length idx = nat c" "set idx \<subseteq> {..<N}"
    and top: "\<forall>i \<in> set idx. \<forall>j < N. j \<notin> set idx \<longrightarrow>
         (if msk ! j ! l then sc ! j else neg_finfo_max)
           \<le> (if msk ! i ! l then sc ! i else neg_finfo_max)"
    and pm: "\<forall>n < N. msk' ! n ! l = (if c = 0 then msk ! n ! l else n \<in> set idx)"
    by auto
  have sub: "set idx \<subseteq> ?F"
  proof (rule ccontr)
    assume "\<not> set idx \<subseteq> ?F"
    then obtain i where i: "i \<in> set idx" "i < N" "\<not> msk ! i ! l" using idx(3) by auto
    have "?F \<subseteq> set idx - {i}"
    proof
      fix j assume "j \<in> ?F"
      then have j: "j < N" "msk ! j ! l" by simp_all
      have "sc ! j \<in> set sc" using j(1) d(2) by simp
      then have pos: "0 \<le> sc ! j" using d(4) by blast
      have "j \<in> set idx"
      proof (rule ccontr)
        assume "j \<notin> set idx"
        then have "sc ! j \<le> neg_finfo_max" using top i j by fastforce
        then show False using pos neg_finfo_max_neg by linarith
      qed
      then show "j \<in> set idx - {i}" using i(3) j(2) by auto
    qed
    then have "card ?F \<le> card (set idx - {i})" by (intro card_mono) simp_all
    also have "\<dots> < card (set idx)" using i(1) by (intro card_Diff1_less) simp_all
    also have "\<dots> = nat c" using idx(1,2) by (simp add: distinct_card)
    finally show False using c mc by simp
  qed
  show ?thesis using pm False sub by auto
qed

lemma step_keeps_resolved:
  assumes ok: "sampler_ok sample N"
    and sh: "shaped N seq" "shaped N msk" "l < 8"
    and c: "0 \<le> c" "c \<le> int N"
    and st: "generate_step M sample prompt l c (g, seq, msk) = Inr (g', seq', msk')"
  shows "\<forall>n < N. \<not> msk ! n ! l \<longrightarrow> \<not> msk' ! n ! l \<longrightarrow> seq' ! n ! l = seq ! n ! l"
proof -
  obtain ids sc g1 where smp: "sample g (prompt @ seq) l = (ids, sc, g1)"
    by (cases "sample g (prompt @ seq) l") auto
  note d = sampler_okD [OF ok smp]
  from generate_step_pointwise [of sample g prompt seq l ids sc g1 N msk c M, OF smp d(1,2) sh c] st
  obtain idx where
    pm: "\<forall>n < N. msk' ! n ! l = (if c = 0 then msk ! n ! l else n \<in> set idx)"
    and ps: "\<forall>n < N. seq' ! n ! l =
         (if c \<noteq> 0 \<and> n \<in> set idx then mask_token_id M
          else if msk ! n ! l then ids ! n else seq ! n ! l)"
    by auto
  show ?thesis using pm ps by auto
qed

lemma generate_steps_snoc:
  assumes "generate_steps M sample prompt l cs st = Inr st1"
  shows "generate_steps M sample prompt l (cs @ [c]) st = generate_step M sample prompt l c st1"
  using assms by (simp add: generate_steps_append split: sum.splits)

text \<open>The level \<open>k\<close> after the first \<open>i\<close> steps of its schedule.\<close>

lemma level_after_steps:
  assumes mid: "mask_token_id M = 1025"
    and ok: "sampler_ok sample N" and k: "k < 8"
    and sh: "shaped N seq" "shaped N msk"
    and un: "col k seq = replicate N (mask_token_id M)" "col k msk = replicate N True"
    and i: "0 < i" "i \<le> S"
    and st: "generate_steps M sample prompt k (take i (all_mask_num_tokens S N)) (g, seq, msk)
               = Inr (g', seq', msk')"
  shows "after_target M N k \<lfloor>cos (pi / 2 * (real i / real S)) * real N\<rfloor> seq' msk'"
proof -
  let ?sched = "all_mask_num_tokens S N"
  have inv: "resolved_unless_flagged M N k seq msk" by (rule untouched_level(1) [OF sh un])
  have "length (take i ?sched) = i" using i by (simp add: length_all_mask_num_tokens)
  then have ne: "take i ?sched \<noteq> []" using i by auto
  have li: "length (take i ?sched) = i" using i by (simp add: length_all_mask_num_tokens)
  have "last (take i ?sched) = take i ?sched ! (i - 1)"
    using ne li by (simp add: last_conv_nth)
  also have "\<dots> = ?sched ! (i - 1)" using i by simp
  also have "\<dots> = \<lfloor>cos (pi / 2 * (real (Suc (i - 1)) / real S)) * real N\<rfloor>"
    using i by (intro nth_all_mask_num_tokens) simp
  finally have l: "last (take i ?sched) = \<lfloor>cos (pi / 2 * (real i / real S)) * real N\<rfloor>"
    using i by simp
  from steps_after_target [OF mid ok k schedule_take_in_range ne sh inv st]
  show ?thesis by (simp add: l)
qed

text \<open>The whole of \<open>generate\<close> over the exact product, with a long enough \<open>steps\<close> list.\<close>

lemma generate_returns:
  assumes ok: "sampler_ok sample (num_latents_to_generate conds)" and L: "8 \<le> length (steps M)"
  shows "\<exists>seq'. length seq' = num_latents_to_generate conds \<and>
           generate M sample g conds codes = Inr (take (num_prompt conds) codes @ seq')"
proof -
  let ?N = "num_latents_to_generate conds"
  have ls: "\<forall>l \<in> set [0..<8]. l < 8 \<and> l < length (steps M)" using L by auto
  from generate_levels_frame [OF ok ls shaped_init, of "take (num_prompt conds) codes" g]
  obtain g' seq' msk' where
    st: "generate_levels M sample (take (num_prompt conds) codes) ?N [0..<8]
           (g, init_seq M ?N, init_mask ?N) = Inr (g', seq', msk')"
    and sh: "shaped ?N seq'"
    by blast
  have "generate M sample g conds codes = Inr (take (num_prompt conds) codes @ seq')"
    using st by (simp add: generate_def Let_def)
  then show ?thesis using sh by (auto simp: shaped_def)
qed

section \<open>The schedule on floats\<close>

text \<open>
  The definitions over the exact product are the instance \<open>exact_product\<close> of the definitions
  over the float product. A float product that is accurate to one half gives counts between
  0 and \<open>seq_len\<close>, each within 1 of the rounded exact product.
\<close>

lemma length_exact_product: "length (exact_product S N) = S"
  by (simp add: exact_product_def linspace_def)

lemma all_mask_num_tokens_exact: "all_mask_num_tokens S N = map long (exact_product S N)"
  by (simp add: all_mask_num_tokens_def exact_product_def Let_def)

lemma nth_exact_product:
  assumes "i < S"
  shows "exact_product S N ! i = cos (pi / 2 * (real (Suc i) / real S)) * real N"
proof -
  have a: "(0 + (1 - 0) * real (Suc i) / real S) * pi * 0.5 = pi / 2 * (real (Suc i) / real S)"
    by (simp add: mult.commute)
  have "drop 1 (linspace 0 1 (S + 1))
        = map (\<lambda>i. 0 + (1 - 0) * real i / real S) [1..<Suc S]"
    by (simp add: linspace_def drop_map del: upt_Suc)
  moreover have "map (\<lambda>i. 0 + (1 - 0) * real i / real S) [1..<Suc S] ! i
        = 0 + (1 - 0) * real (Suc i) / real S"
    using assms by (simp del: upt_Suc)
  moreover have "i < length (drop 1 (linspace 0 1 (S + 1)))"
    using assms by (simp add: linspace_def)
  ultimately have "exact_product S N ! i
     = cosine_schedule (0 + (1 - 0) * real (Suc i) / real S) * real N"
    by (simp add: exact_product_def Let_def del: upt_Suc)
  then show ?thesis by (simp only: cosine_schedule_def a)
qed

lemma accurate_exact_product: "accurate_product exact_product N"
  by (simp add: accurate_product_def length_exact_product)

lemma accurate_productD:
  assumes "accurate_product fprod N"
  shows "length (fprod S N) = S"
    and "i < S \<Longrightarrow> \<bar>fprod S N ! i - cos (pi / 2 * (real (Suc i) / real S)) * real N\<bar> < 1 / 2"
  using assms unfolding accurate_product_def by (simp_all add: nth_exact_product)

lemma long_near:
  fixes x y :: real
  assumes x: "0 \<le> x" "x \<le> real N" and d: "\<bar>y - x\<bar> < 1 / 2"
  shows "0 \<le> long y" "long y \<le> int N" "\<bar>long y - round x\<bar> \<le> 1"
proof -
  have y: "- (1 / 2) < y" "y < real N + 1 / 2" "y < x + 1 / 2" "x - 1 / 2 < y"
    using x d by linarith+
  show "0 \<le> long y"
  proof (cases "0 \<le> y")
    case True
    then show ?thesis by (simp add: long_def)
  next
    case False
    then have "- 1 < y" using y(1) by linarith
    then have "0 \<le> \<lceil>y\<rceil>" by linarith
    then show ?thesis using False by (simp add: long_def)
  qed
  show "long y \<le> int N"
  proof (cases "0 \<le> y")
    case True
    have "\<lfloor>y\<rfloor> \<le> int N" using y(2) by linarith
    then show ?thesis using True by (simp add: long_def)
  next
    case False
    then have "\<lceil>y\<rceil> \<le> 0" by linarith
    moreover have "(0::int) \<le> int N" by simp
    ultimately have "\<lceil>y\<rceil> \<le> int N" by (rule order_trans)
    then show ?thesis using False by (simp add: long_def)
  qed
  show "\<bar>long y - round x\<bar> \<le> 1"
  proof (cases "0 \<le> y")
    case True
    have "\<lfloor>y\<rfloor> \<le> round x" unfolding round_def using y(3) by linarith
    moreover have "round x \<le> \<lfloor>y\<rfloor> + 1" unfolding round_def using y(4) by linarith
    ultimately show ?thesis using True by (simp add: long_def)
  next
    case False
    then have "\<lceil>y\<rceil> = 0" using y(1) by linarith
    moreover have "round x = 0" unfolding round_def using False y(4) x(1) by linarith
    ultimately show ?thesis using False by (simp add: long_def)
  qed
qed

lemma f32_schedule_nth:
  assumes acc: "accurate_product fprod N" and i: "i < S"
  shows "0 \<le> map long (fprod S N) ! i" "map long (fprod S N) ! i \<le> int N"
    "\<bar>map long (fprod S N) ! i - round (cos (pi / 2 * (real (Suc i) / real S)) * real N)\<bar> \<le> 1"
proof -
  let ?x = "cos (pi / 2 * (real (Suc i) / real S)) * real N"
  have b: "0 \<le> cos (pi / 2 * (real (Suc i) / real S))" "cos (pi / 2 * (real (Suc i) / real S)) \<le> 1"
    using schedule_cos_bounds [of "Suc i" S] i by simp_all
  have x0: "0 \<le> ?x" using b by simp
  have "?x \<le> 1 * real N" using b by (intro mult_right_mono) simp_all
  then have x1: "?x \<le> real N" by simp
  have n: "map long (fprod S N) ! i = long (fprod S N ! i)"
    using i accurate_productD(1) [OF acc, of S] by simp
  note l = long_near [OF x0 x1 accurate_productD(2) [OF acc i]]
  show "0 \<le> map long (fprod S N) ! i" using l(1) n by simp
  show "map long (fprod S N) ! i \<le> int N" using l(2) n by simp
  show "\<bar>map long (fprod S N) ! i - round ?x\<bar> \<le> 1" using l(3) n by simp
qed

lemma f32_schedule_in_range:
  assumes acc: "accurate_product fprod N"
  shows "\<forall>c \<in> set (map long (fprod S N)). 0 \<le> c \<and> c \<le> int N"
proof
  fix c assume "c \<in> set (map long (fprod S N))"
  then obtain i where i: "i < length (map long (fprod S N))" "c = map long (fprod S N) ! i"
    by (auto simp: in_set_conv_nth)
  then have "i < S" using accurate_productD(1) [OF acc, of S] by simp
  then show "0 \<le> c \<and> c \<le> int N" using f32_schedule_nth(1,2) [OF acc] i(2) by simp
qed

lemma f32_schedule_take_in_range:
  assumes acc: "accurate_product fprod N"
  shows "\<forall>c \<in> set (take i (map long (fprod S N))). 0 \<le> c \<and> c \<le> int N"
  using f32_schedule_in_range [OF acc] by (meson in_set_takeD)

lemma generate_level_exact:
  "generate_level M sample prompt N l st = generate_level_f32 exact_product M sample prompt N l st"
  by (simp add: generate_level_def generate_level_f32_def all_mask_num_tokens_exact)

lemma generate_levels_exact:
  "generate_levels M sample prompt N ls st = generate_levels_f32 exact_product M sample prompt N ls st"
  by (induction ls arbitrary: st) (simp_all add: generate_level_exact split: sum.splits)

lemma generate_exact:
  "generate M sample g conds codes = generate_f32 exact_product M sample g conds codes"
  by (simp add: generate_def generate_f32_def generate_levels_exact)

lemma generate_levels_f32_append:
  "generate_levels_f32 fprod M sample prompt N (ls @ ms) st =
     (case generate_levels_f32 fprod M sample prompt N ls st of
        Inl e \<Rightarrow> Inl e
      | Inr st' \<Rightarrow> generate_levels_f32 fprod M sample prompt N ms st')"
  by (induction ls arbitrary: st) (auto split: sum.splits)

lemma generate_level_f32_frame:
  assumes ok: "sampler_ok sample N" and acc: "accurate_product fprod N"
    and l: "l < 8" "l < length (steps M)"
    and sh: "shaped N seq" "shaped N msk"
  shows "\<exists>g' seq' msk'.
      generate_level_f32 fprod M sample prompt N l (g, seq, msk) = Inr (g', seq', msk') \<and>
      shaped N seq' \<and> shaped N msk' \<and>
      (\<forall>l'. l' \<noteq> l \<longrightarrow> col l' seq' = col l' seq \<and> col l' msk' = col l' msk)"
  using generate_steps_frame [OF ok l(1) f32_schedule_in_range [OF acc] sh, of M prompt "steps M ! l" g] l(2)
  by (simp add: generate_level_f32_def)

lemma generate_levels_f32_frame:
  assumes ok: "sampler_ok sample N" and acc: "accurate_product fprod N"
    and ls: "\<forall>l \<in> set ls. l < 8 \<and> l < length (steps M)"
    and sh: "shaped N seq" "shaped N msk"
  shows "\<exists>g' seq' msk'.
      generate_levels_f32 fprod M sample prompt N ls (g, seq, msk) = Inr (g', seq', msk') \<and>
      shaped N seq' \<and> shaped N msk' \<and>
      (\<forall>l'. l' \<notin> set ls \<longrightarrow> col l' seq' = col l' seq \<and> col l' msk' = col l' msk)"
  using ls sh
proof (induction ls arbitrary: g seq msk)
  case Nil
  then show ?case by simp
next
  case (Cons l ls)
  have l: "l < 8" "l < length (steps M)" using Cons.prems(1) by simp_all
  from generate_level_f32_frame [OF ok acc l Cons.prems(2,3), of prompt g]
  obtain g1 seq1 msk1 where
    st: "generate_level_f32 fprod M sample prompt N l (g, seq, msk) = Inr (g1, seq1, msk1)"
    and sh1: "shaped N seq1" "shaped N msk1"
    and fr1: "\<forall>l'. l' \<noteq> l \<longrightarrow> col l' seq1 = col l' seq \<and> col l' msk1 = col l' msk"
    by blast
  have ls': "\<forall>l \<in> set ls. l < 8 \<and> l < length (steps M)" using Cons.prems(1) by simp
  from Cons.IH [OF ls' sh1, of g1]
  obtain g2 seq2 msk2 where
    st2: "generate_levels_f32 fprod M sample prompt N ls (g1, seq1, msk1) = Inr (g2, seq2, msk2)"
    and sh2: "shaped N seq2" "shaped N msk2"
    and fr2: "\<forall>l'. l' \<notin> set ls \<longrightarrow> col l' seq2 = col l' seq1 \<and> col l' msk2 = col l' msk1"
    by blast
  have "generate_levels_f32 fprod M sample prompt N (l # ls) (g, seq, msk) = Inr (g2, seq2, msk2)"
    using st st2 by simp
  moreover have "\<forall>l'. l' \<notin> set (l # ls) \<longrightarrow> col l' seq2 = col l' seq \<and> col l' msk2 = col l' msk"
    using fr1 fr2 by simp
  ultimately show ?case using sh2 by blast
qed

lemma level_start_f32:
  assumes ok: "sampler_ok sample N" and acc: "accurate_product fprod N"
    and k: "k < 8" "k \<le> length (steps M)"
  shows "\<exists>g seq msk.
      generate_levels_f32 fprod M sample prompt N [0..<k] (g0, init_seq M N, init_mask N)
        = Inr (g, seq, msk) \<and>
      shaped N seq \<and> shaped N msk \<and>
      (\<forall>l. k \<le> l \<and> l < 8 \<longrightarrow>
         col l seq = replicate N (mask_token_id M) \<and> col l msk = replicate N True)"
proof -
  have ls: "\<forall>l \<in> set [0..<k]. l < 8 \<and> l < length (steps M)" using k by auto
  from generate_levels_f32_frame [OF ok acc ls shaped_init, of prompt g0]
  obtain g seq msk where
    st: "generate_levels_f32 fprod M sample prompt N [0..<k] (g0, init_seq M N, init_mask N)
           = Inr (g, seq, msk)"
    and sh: "shaped N seq" "shaped N msk"
    and fr: "\<forall>l'. l' \<notin> set [0..<k] \<longrightarrow>
               col l' seq = col l' (init_seq M N) \<and> col l' msk = col l' (init_mask N)"
    by blast
  have "\<forall>l. k \<le> l \<and> l < 8 \<longrightarrow>
         col l seq = replicate N (mask_token_id M) \<and> col l msk = replicate N True"
    using fr by (auto simp: col_init)
  then show ?thesis using st sh by blast
qed

lemma generate_levels_f32_short:
  assumes ok: "sampler_ok sample N" and acc: "accurate_product fprod N"
    and L: "length (steps M) < 8"
  shows "generate_levels_f32 fprod M sample prompt N [0..<8] (g0, init_seq M N, init_mask N)
           = Inl IndexError"
proof -
  let ?L = "length (steps M)"
  from level_start_f32 [OF ok acc L order_refl, of prompt g0]
  obtain g seq msk where
    st: "generate_levels_f32 fprod M sample prompt N [0..<?L] (g0, init_seq M N, init_mask N)
           = Inr (g, seq, msk)"
    by blast
  have "[0..<?L + (8 - ?L)] = [0..<?L] @ [?L..<?L + (8 - ?L)]"
    by (rule upt_add_eq_append) simp
  moreover have "[?L..<8] = ?L # [Suc ?L..<8]" using L by (rule upt_conv_Cons)
  ultimately have "[0..<8] = [0..<?L] @ ?L # [Suc ?L..<8]" using L by simp
  moreover have "generate_level_f32 fprod M sample prompt N ?L (g, seq, msk) = Inl IndexError"
    by (simp add: generate_level_f32_def)
  ultimately show ?thesis using st by (simp add: generate_levels_f32_append)
qed

lemma generate_f32_through_level:
  assumes k: "k < 8"
    and st: "generate_levels_f32 fprod M sample (take (num_prompt conds) codes)
               (num_latents_to_generate conds) [0..<k]
               (g0, init_seq M (num_latents_to_generate conds),
                init_mask (num_latents_to_generate conds)) = Inr st0"
  shows "generate_f32 fprod M sample g0 conds codes =
     (case generate_level_f32 fprod M sample (take (num_prompt conds) codes)
             (num_latents_to_generate conds) k st0 of
        Inl e \<Rightarrow> Inl e
      | Inr st1 \<Rightarrow>
          (case generate_levels_f32 fprod M sample (take (num_prompt conds) codes)
                  (num_latents_to_generate conds) [Suc k..<8] st1 of
             Inl e \<Rightarrow> Inl e
           | Inr (g2, seq2, msk2) \<Rightarrow> Inr (take (num_prompt conds) codes @ seq2)))"
proof -
  have "[0..<k + (8 - k)] = [0..<k] @ [k..<k + (8 - k)]"
    by (rule upt_add_eq_append) simp
  moreover have "[k..<8] = k # [Suc k..<8]" using k by (rule upt_conv_Cons)
  ultimately have "[0..<8] = [0..<k] @ k # [Suc k..<8]" using k by simp
  then show ?thesis using st
    by (simp add: generate_f32_def Let_def generate_levels_f32_append split: sum.splits)
qed

lemma steps_masked_count:
  assumes ok: "sampler_ok sample N" and l: "l < 8"
    and cs: "\<forall>c \<in> set cs. 0 \<le> c \<and> c \<le> int N"
    and sh: "shaped N seq" "shaped N msk"
    and st: "generate_steps M sample prompt l cs (g, seq, msk) = Inr (g', seq', msk')"
  shows "int (masked_count l msk') = last (int (masked_count l msk) # filter (\<lambda>c. c \<noteq> 0) cs)"
  using cs sh st
proof (induction cs arbitrary: g seq msk)
  case Nil
  then show ?case by simp
next
  case (Cons c cs)
  have c: "0 \<le> c" "c \<le> int N" using Cons.prems(1) by simp_all
  obtain ids sc g1 where smp: "sample g (prompt @ seq) l = (ids, sc, g1)"
    by (cases "sample g (prompt @ seq) l") auto
  note d = sampler_okD [OF ok smp]
  from generate_step_pointwise [of sample g prompt seq l ids sc g1 N msk c M,
      OF smp d(1,2) Cons.prems(2,3) l c]
  obtain seq1 msk1 idx where
    s1: "generate_step M sample prompt l c (g, seq, msk) = Inr (g1, seq1, msk1)"
    and sh1: "shaped N seq1" "shaped N msk1"
    and idx: "distinct idx" "length idx = nat c" "set idx \<subseteq> {..<N}"
    and pm: "\<forall>n < N. msk1 ! n ! l = (if c = 0 then msk ! n ! l else n \<in> set idx)"
    by blast
  have rest: "generate_steps M sample prompt l cs (g1, seq1, msk1) = Inr (g', seq', msk')"
    using Cons.prems(4) s1 by simp
  have cs': "\<forall>c \<in> set cs. 0 \<le> c \<and> c \<le> int N" using Cons.prems(1) by simp
  note ih = Cons.IH [OF cs' sh1 rest]
  show ?case
  proof (cases "c = 0")
    case True
    then have "{n. n < N \<and> msk1 ! n ! l} = {n. n < N \<and> msk ! n ! l}" using pm by auto
    then have "masked_count l msk1 = masked_count l msk"
      by (simp add: masked_count_card [OF sh1(2)] masked_count_card [OF Cons.prems(3)])
    then show ?thesis using ih True by simp
  next
    case False
    have "{n. n < N \<and> msk1 ! n ! l} = set idx" using pm False idx(3) by auto
    then have "masked_count l msk1 = card (set idx)"
      by (simp add: masked_count_card [OF sh1(2)])
    also have "\<dots> = nat c" using idx(1,2) by (simp add: distinct_card)
    finally have "int (masked_count l msk1) = c" using c(1) by simp
    then show ?thesis using ih False by simp
  qed
qed

lemma steps_mask_id_count:
  assumes mid: "mask_token_id M = 1025"
    and ok: "sampler_ok sample N" and l: "l < 8"
    and cs: "\<forall>c \<in> set cs. 0 \<le> c \<and> c \<le> int N"
    and sh: "shaped N seq" "shaped N msk"
    and un: "col l seq = replicate N (mask_token_id M)" "col l msk = replicate N True"
    and st: "generate_steps M sample prompt l cs (g, seq, msk) = Inr (g', seq', msk')"
  shows "int (mask_id_count M l seq') = last (int N # cs)"
proof (cases "cs = []")
  case True
  then have "seq' = seq" using st by simp
  then show ?thesis using True untouched_level(2) [OF sh un] by simp
next
  case False
  from generate_steps_frame [OF ok l cs sh, of M prompt g] st
  have sh': "shaped N seq'" "shaped N msk'" by auto
  have a: "after_target M N l (last cs) seq' msk'"
    by (rule steps_after_target [OF mid ok l cs False sh untouched_level(1) [OF sh un] st])
  have "0 \<le> last cs" using cs False last_in_set by blast
  from after_target_mask_id_count [OF sh' a this]
  show ?thesis using False by simp
qed

text \<open>\<open>generate\<close> reads the steps list at the levels 0 to 7 only.\<close>

lemma generate_step_steps_update:
  "generate_step (M\<lparr>steps := s\<rparr>) sample prompt l c st = generate_step M sample prompt l c st"
  by (cases st) (simp add: generate_step_def Let_def split: prod.splits sum.splits)

lemma generate_steps_steps_update:
  "generate_steps (M\<lparr>steps := s\<rparr>) sample prompt l cs st = generate_steps M sample prompt l cs st"
  by (induction cs arbitrary: st) (simp_all add: generate_step_steps_update split: sum.splits)

lemma generate_level_f32_take8:
  assumes "l < 8"
  shows "generate_level_f32 fprod (M\<lparr>steps := take 8 (steps M)\<rparr>) sample prompt N l st
         = generate_level_f32 fprod M sample prompt N l st"
proof -
  have "length (take 8 (steps M)) \<le> l \<longleftrightarrow> length (steps M) \<le> l" using assms by auto
  moreover have "take 8 (steps M) ! l = steps M ! l" using assms by simp
  ultimately show ?thesis
    by (simp add: generate_level_f32_def generate_steps_steps_update del: length_take)
qed

lemma generate_levels_f32_take8:
  assumes "\<forall>l \<in> set ls. l < 8"
  shows "generate_levels_f32 fprod (M\<lparr>steps := take 8 (steps M)\<rparr>) sample prompt N ls st
         = generate_levels_f32 fprod M sample prompt N ls st"
  using assms
  by (induction ls arbitrary: st) (simp_all add: generate_level_f32_take8 split: sum.splits)

lemma generate_f32_take8:
  "generate_f32 fprod (M\<lparr>steps := take 8 (steps M)\<rparr>) sample g conds codes
   = generate_f32 fprod M sample g conds codes"
proof -
  have "\<forall>l \<in> set [0..<8]. l < 8" by simp
  then have "generate_levels_f32 fprod (M\<lparr>steps := take 8 (steps M)\<rparr>) sample prompt N [0..<8] st
             = generate_levels_f32 fprod M sample prompt N [0..<8] st" for prompt N st
    by (rule generate_levels_f32_take8)
  then show ?thesis by (simp add: generate_f32_def init_seq_def Let_def)
qed

lemma generate_f32_short:
  assumes ok: "sampler_ok sample (num_latents_to_generate conds)"
    and acc: "accurate_product fprod (num_latents_to_generate conds)"
    and L: "length (steps M) < 8"
  shows "generate_f32 fprod M sample g conds codes = Inl IndexError"
  using generate_levels_f32_short [OF ok acc L, of "take (num_prompt conds) codes" g]
  by (simp add: generate_f32_def Let_def)

section \<open>The small generation, evaluated\<close>

lemma demo_init: "SoundStorm_init demo_config = Inr demo_model"
  by (simp add: SoundStorm_init_def demo_config_def demo_model_def)

lemma demo_sampler_ok: "sampler_ok demo_sample 2"
  by (simp add: sampler_ok_def demo_sample_def)

lemma floor_sqrt2: "\<lfloor>sqrt 2\<rfloor> = 1"
proof (rule floor_unique)
  show "of_int 1 \<le> sqrt 2" by simp
  have "sqrt 2 < sqrt 4" by (intro real_sqrt_less_mono) simp
  then show "sqrt 2 < of_int 1 + 1" by simp
qed

lemma demo_schedule: "all_mask_num_tokens 2 2 = [1, 0]"
proof -
  have "pi / 2 * (real (Suc 0) / real 2) = pi / 4" by simp
  then have "all_mask_num_tokens 2 2 ! 0 = \<lfloor>cos (pi / 4) * 2\<rfloor>"
    using nth_all_mask_num_tokens [of 0 2 2] by simp
  then have a: "all_mask_num_tokens 2 2 ! 0 = 1" by (simp add: cos_45 floor_sqrt2)
  have "pi / 2 * (real (Suc 1) / real 2) = pi / 2" by simp
  then have b: "all_mask_num_tokens 2 2 ! 1 = 0"
    using nth_all_mask_num_tokens [of 1 2 2] by simp
  have "length (all_mask_num_tokens 2 2) = 2" by (rule length_all_mask_num_tokens)
  then obtain x y where xy: "all_mask_num_tokens 2 2 = [x, y]"
    by (metis (no_types, opaque_lifting) One_nat_def Suc_1 length_0_conv length_Suc_conv)
  then show ?thesis using a b by simp
qed

lemma demo_schedule1: "all_mask_num_tokens 1 2 = [0]"
  by (simp add: all_mask_num_tokens_def linspace_def cosine_schedule_def long_def)

lemma demo_init_buffers:
  "init_seq demo_model 2 = [[1025, 1025, 1025, 1025, 1025, 1025, 1025, 1025],
                            [1025, 1025, 1025, 1025, 1025, 1025, 1025, 1025]]"
  "init_mask 2 = [[True, True, True, True, True, True, True, True],
                  [True, True, True, True, True, True, True, True]]"
proof -
  have r2: "replicate 2 x = [x, x]" for x :: 'a by (simp add: numeral_2_eq_2)
  have r8: "replicate 8 x = [x, x, x, x, x, x, x, x]" for x :: 'a
    by (simp add: eval_nat_numeral)
  show "init_seq demo_model 2 = [[1025, 1025, 1025, 1025, 1025, 1025, 1025, 1025],
                            [1025, 1025, 1025, 1025, 1025, 1025, 1025, 1025]]"
    unfolding init_seq_def r2 r8 by (simp add: demo_model_def)
  show "init_mask 2 = [[True, True, True, True, True, True, True, True],
                  [True, True, True, True, True, True, True, True]]"
    unfolding init_mask_def r2 r8 by simp
qed

lemmas step_eval = generate_step_def demo_sample_def set_col_def col_def torch_where_def
  masked_fill_def topk_indices_def scatter_value_def neg_finfo_max_def

lemma demo_step1:
  "generate_step demo_model demo_sample demo_prompt 0 1
     ((), [[1025, 1025, 1025, 1025, 1025, 1025, 1025, 1025],
           [1025, 1025, 1025, 1025, 1025, 1025, 1025, 1025]],
          [[True, True, True, True, True, True, True, True],
           [True, True, True, True, True, True, True, True]])
   = Inr ((), [[5, 1025, 1025, 1025, 1025, 1025, 1025, 1025],
               [1025, 1025, 1025, 1025, 1025, 1025, 1025, 1025]],
              [[False, True, True, True, True, True, True, True],
               [True, True, True, True, True, True, True, True]])"
  by (simp add: step_eval demo_model_def)

lemma demo_step2:
  "generate_step demo_model demo_sample demo_prompt 0 0
     ((), [[5, 1025, 1025, 1025, 1025, 1025, 1025, 1025],
           [1025, 1025, 1025, 1025, 1025, 1025, 1025, 1025]],
          [[False, True, True, True, True, True, True, True],
           [True, True, True, True, True, True, True, True]])
   = Inr ((), [[5, 1025, 1025, 1025, 1025, 1025, 1025, 1025],
               [6, 1025, 1025, 1025, 1025, 1025, 1025, 1025]],
              [[False, True, True, True, True, True, True, True],
               [True, True, True, True, True, True, True, True]])"
  by (simp add: step_eval)

lemma demo_level0:
  "generate_level demo_model demo_sample demo_prompt 2 0 ((), init_seq demo_model 2, init_mask 2)
   = Inr ((), [[5, 1025, 1025, 1025, 1025, 1025, 1025, 1025],
               [6, 1025, 1025, 1025, 1025, 1025, 1025, 1025]],
              [[False, True, True, True, True, True, True, True],
               [True, True, True, True, True, True, True, True]])"
proof -
  have "steps demo_model ! 0 = 2" "0 < length (steps demo_model)"
    by (simp_all add: demo_model_def)
  then show ?thesis
    by (simp add: generate_level_def demo_schedule demo_init_buffers demo_step1 demo_step2)
qed

lemma demo_level1:
  "generate_level demo_model demo_sample demo_prompt 2 1
     ((), [[5, 1025, 1025, 1025, 1025, 1025, 1025, 1025],
           [6, 1025, 1025, 1025, 1025, 1025, 1025, 1025]],
          [[False, True, True, True, True, True, True, True],
           [True, True, True, True, True, True, True, True]])
   = Inr ((), [[5, 5, 1025, 1025, 1025, 1025, 1025, 1025],
               [6, 6, 1025, 1025, 1025, 1025, 1025, 1025]],
              [[False, True, True, True, True, True, True, True],
               [True, True, True, True, True, True, True, True]])"
proof -
  have "steps demo_model ! 1 = 1" "1 < length (steps demo_model)"
    by (simp_all add: demo_model_def)
  then show ?thesis
    using demo_schedule1 by (simp add: generate_level_def step_eval)
qed

text \<open>The first two steps of level 0 of the generation over three positions.\<close>

lemma demo3_init: "SoundStorm_init demo3_config = Inr demo3_model"
  by (simp add: SoundStorm_init_def demo3_config_def demo3_model_def demo_config_def demo_model_def)

lemma demo3_sampler_ok: "sampler_ok demo3_sample 3"
  by (simp add: sampler_ok_def demo3_sample_def)

lemma sqrt3_bounds: "4 / 3 \<le> sqrt 3" "sqrt 3 < 2"
proof -
  have "(4 / 3 :: real) < sqrt 3" by (rule real_less_rsqrt) (simp add: power2_eq_square)
  then show "4 / 3 \<le> sqrt 3" by simp
  show "sqrt 3 < 2" by (rule real_less_lsqrt) simp_all
qed

lemma demo3_schedule: "all_mask_num_tokens 3 3 = [2, 1, 0]"
proof -
  have "pi / 2 * (real (Suc 0) / real 3) = pi / 6" by simp
  then have "all_mask_num_tokens 3 3 ! 0 = \<lfloor>cos (pi / 6) * 3\<rfloor>"
    using nth_all_mask_num_tokens [of 0 3 3] by simp
  moreover have "\<lfloor>sqrt 3 / 2 * 3\<rfloor> = 2"
    by (rule floor_unique) (use sqrt3_bounds in simp_all)
  ultimately have a: "all_mask_num_tokens 3 3 ! 0 = 2" by (simp add: cos_30)
  have "pi / 2 * (real (Suc 1) / real 3) = pi / 3" by simp
  then have "all_mask_num_tokens 3 3 ! 1 = \<lfloor>cos (pi / 3) * 3\<rfloor>"
    using nth_all_mask_num_tokens [of 1 3 3] by simp
  moreover have "\<lfloor>1 / 2 * 3 :: real\<rfloor> = 1" by (rule floor_unique) simp_all
  ultimately have b: "all_mask_num_tokens 3 3 ! 1 = 1" by (simp add: cos_60)
  have "pi / 2 * (real (Suc 2) / real 3) = pi / 2" by simp
  then have c: "all_mask_num_tokens 3 3 ! 2 = 0"
    using nth_all_mask_num_tokens [of 2 3 3] by simp
  have "length (all_mask_num_tokens 3 3) = 3" by (rule length_all_mask_num_tokens)
  then obtain x y z where "all_mask_num_tokens 3 3 = [x, y, z]"
    by (auto simp: numeral_3_eq_3 length_Suc_conv)
  then show ?thesis using a b c by simp
qed

lemma demo3_init_buffers:
  "init_seq demo3_model 3 = [[1025, 1025, 1025, 1025, 1025, 1025, 1025, 1025],
                             [1025, 1025, 1025, 1025, 1025, 1025, 1025, 1025],
                             [1025, 1025, 1025, 1025, 1025, 1025, 1025, 1025]]"
  "init_mask 3 = [[True, True, True, True, True, True, True, True],
                  [True, True, True, True, True, True, True, True],
                  [True, True, True, True, True, True, True, True]]"
proof -
  have r3: "replicate 3 x = [x, x, x]" for x :: 'a by (simp add: numeral_3_eq_3)
  have r8: "replicate 8 x = [x, x, x, x, x, x, x, x]" for x :: 'a
    by (simp add: eval_nat_numeral)
  show "init_seq demo3_model 3 = [[1025, 1025, 1025, 1025, 1025, 1025, 1025, 1025],
                             [1025, 1025, 1025, 1025, 1025, 1025, 1025, 1025],
                             [1025, 1025, 1025, 1025, 1025, 1025, 1025, 1025]]"
    unfolding init_seq_def r3 r8 by (simp add: demo3_model_def demo_model_def)
  show "init_mask 3 = [[True, True, True, True, True, True, True, True],
                  [True, True, True, True, True, True, True, True],
                  [True, True, True, True, True, True, True, True]]"
    unfolding init_mask_def r3 r8 by simp
qed

lemma demo3_step1:
  "generate_step demo3_model demo3_sample demo_prompt 0 2
     (0, [[1025, 1025, 1025, 1025, 1025, 1025, 1025, 1025],
          [1025, 1025, 1025, 1025, 1025, 1025, 1025, 1025],
          [1025, 1025, 1025, 1025, 1025, 1025, 1025, 1025]],
         [[True, True, True, True, True, True, True, True],
          [True, True, True, True, True, True, True, True],
          [True, True, True, True, True, True, True, True]])
   = Inr (1, [[5, 1025, 1025, 1025, 1025, 1025, 1025, 1025],
              [1025, 1025, 1025, 1025, 1025, 1025, 1025, 1025],
              [1025, 1025, 1025, 1025, 1025, 1025, 1025, 1025]],
             [[False, True, True, True, True, True, True, True],
              [True, True, True, True, True, True, True, True],
              [True, True, True, True, True, True, True, True]])"
  by (simp add: step_eval demo3_sample_def demo3_model_def demo_model_def)

lemma demo3_step2:
  "generate_step demo3_model demo3_sample demo_prompt 0 1
     (1, [[5, 1025, 1025, 1025, 1025, 1025, 1025, 1025],
          [1025, 1025, 1025, 1025, 1025, 1025, 1025, 1025],
          [1025, 1025, 1025, 1025, 1025, 1025, 1025, 1025]],
         [[False, True, True, True, True, True, True, True],
          [True, True, True, True, True, True, True, True],
          [True, True, True, True, True, True, True, True]])
   = Inr (2, [[5, 1025, 1025, 1025, 1025, 1025, 1025, 1025],
              [1025, 1025, 1025, 1025, 1025, 1025, 1025, 1025],
              [7, 1025, 1025, 1025, 1025, 1025, 1025, 1025]],
             [[False, True, True, True, True, True, True, True],
              [True, True, True, True, True, True, True, True],
              [False, True, True, True, True, True, True, True]])"
  by (simp add: step_eval demo3_sample_def demo3_model_def demo_model_def)

section \<open>The training masker\<close>

lemma tensor3_nth:
  assumes "tensor3 B N Q codes" "b < B"
  shows "length (codes ! b) = N" and "n < N \<Longrightarrow> length (codes ! b ! n) = Q"
proof -
  have "codes ! b \<in> set codes" using assms by (simp add: tensor3_def)
  then have ex: "length (codes ! b) = N" "\<forall>row \<in> set (codes ! b). length row = Q"
    using assms(1) by (simp_all add: tensor3_def)
  show "length (codes ! b) = N" by (rule ex(1))
  show "length (codes ! b ! n) = Q" if "n < N"
    using ex that by (metis nth_mem)
qed

lemma tensor3_shapes:
  assumes "tensor3 B N Q codes" "0 < B" "0 < N"
  shows "length codes = B" "shape1 codes = N" "shape2 codes = Q"
proof -
  show "length codes = B" using assms by (simp add: tensor3_def)
  then obtain ex rest where c: "codes = ex # rest" using assms(2) by (cases codes) auto
  then have ex: "length ex = N" "\<forall>row \<in> set ex. length row = Q"
    using assms(1) by (simp_all add: tensor3_def)
  then obtain row rows where e: "ex = row # rows" using assms(3) by (cases ex) auto
  show "shape1 codes = N" using c ex by (simp add: shape1_def)
  show "shape2 codes = Q" using c e ex by (simp add: shape2_def)
qed

lemma nth_level_view:
  assumes "tensor3 B N Q codes" "b < B" "n < N"
  shows "level_view i codes ! b ! n = codes ! b ! n ! i"
  using assms tensor3_nth(1) [OF assms(1,2)] by (simp add: level_view_def tensor3_def)

lemma length_level_view:
  assumes "tensor3 B N Q codes"
  shows "length (level_view i codes) = B" and "b < B \<Longrightarrow> length (level_view i codes ! b) = N"
  using assms tensor3_nth(1) [OF assms(1)] by (simp_all add: level_view_def tensor3_def)

lemma tensor3_fine_mask:
  assumes "tensor3 B N Q codes"
  shows "tensor3 B N Q (fine_mask M codes i t)"
proof -
  have "length (take t ex @ map (\<lambda>row. row[i := mask_upper_level M]) (drop t ex)) = N \<and>
        (\<forall>row \<in> set (take t ex @ map (\<lambda>row. row[i := mask_upper_level M]) (drop t ex)).
           length row = Q)"
    if "ex \<in> set codes" for ex
  proof -
    have ex: "length ex = N" "\<forall>row \<in> set ex. length row = Q"
      using assms that by (simp_all add: tensor3_def)
    have "\<forall>row \<in> set (take t ex). length row = Q" using ex(2) by (meson in_set_takeD)
    moreover have "\<forall>row \<in> set (drop t ex). length row = Q" using ex(2) by (meson in_set_dropD)
    ultimately show ?thesis using ex(1) by auto
  qed
  then show ?thesis using assms by (simp add: tensor3_def fine_mask_def)
qed

lemma nth_fine_mask:
  assumes "tensor3 B N Q codes" "b < B" "n < N"
  shows "fine_mask M codes i t ! b ! n ! l =
           (if t \<le> n \<and> l = i \<and> i < Q then mask_upper_level M else codes ! b ! n ! l)"
proof -
  have len: "length codes = B" "length (codes ! b) = N" "length (codes ! b ! n) = Q"
    using assms tensor3_nth [OF assms(1,2)] by (simp_all add: tensor3_def)
  let ?ex = "codes ! b"
  have e: "fine_mask M codes i t ! b
           = take t ?ex @ map (\<lambda>row. row[i := mask_upper_level M]) (drop t ?ex)"
    using assms(2) len(1) by (simp add: fine_mask_def)
  show ?thesis
  proof (cases "t \<le> n")
    case True
    have tl: "t \<le> length ?ex" using True assms(3) len(2) by simp
    have "drop t ?ex ! (n - t) = ?ex ! (t + (n - t))" by (rule nth_drop [OF tl])
    then have "drop t ?ex ! (n - t) = ?ex ! n" using True by simp
    then have "(take t ?ex @ map (\<lambda>row. row[i := mask_upper_level M]) (drop t ?ex)) ! n
               = (?ex ! n)[i := mask_upper_level M]"
      using True assms(3) len(2) by (simp add: nth_append min_def)
    moreover have "(?ex ! n)[i := mask_upper_level M] ! l =
        (if l = i \<and> i < Q then mask_upper_level M else ?ex ! n ! l)"
    proof (cases "i < Q")
      case True
      then show ?thesis using len(3) by (simp add: nth_list_update)
    next
      case False
      then have "(?ex ! n)[i := mask_upper_level M] = ?ex ! n"
        using len(3) by (intro list_update_beyond) simp
      then show ?thesis using False by simp
    qed
    ultimately show ?thesis using True by (simp add: e)
  next
    case False
    then have "(take t ?ex @ map (\<lambda>row. row[i := mask_upper_level M]) (drop t ?ex)) ! n = ?ex ! n"
      using assms(3) len(2) by (simp add: nth_append)
    then show ?thesis using False by (simp add: e)
  qed
qed

lemma level_view_fine_mask_other:
  assumes "i \<noteq> l"
  shows "level_view l (fine_mask M codes i t) = level_view l codes"
proof -
  have "map (\<lambda>row. row ! l) (take t ex @ map (\<lambda>row. row[i := mask_upper_level M]) (drop t ex))
        = map (\<lambda>row. row ! l) ex" for ex :: "nat list list"
  proof -
    have "map (\<lambda>row. row ! l) (map (\<lambda>row. row[i := mask_upper_level M]) (drop t ex))
          = map (\<lambda>row. row ! l) (drop t ex)"
      using assms by simp
    then have "map (\<lambda>row. row ! l) (take t ex @ map (\<lambda>row. row[i := mask_upper_level M]) (drop t ex))
          = map (\<lambda>row. row ! l) (take t ex) @ map (\<lambda>row. row ! l) (drop t ex)"
      by simp
    also have "\<dots> = map (\<lambda>row. row ! l) (take t ex @ drop t ex)"
      by (simp only: map_append)
    finally show ?thesis by (simp only: append_take_drop_id)
  qed
  then show ?thesis by (simp add: level_view_def fine_mask_def)
qed

text \<open>The storage after the loop visited the levels \<open>ls\<close>.\<close>

lemma fine_levels_fold:
  assumes "tensor3 B N Q codes"
  shows "tensor3 B N Q (fold (\<lambda>i c. if q < i then fine_mask M c i t else c) ls codes)"
    and "b < B \<Longrightarrow> n < N \<Longrightarrow>
         fold (\<lambda>i c. if q < i then fine_mask M c i t else c) ls codes ! b ! n ! l =
           (if t \<le> n \<and> l \<in> set ls \<and> q < l \<and> l < Q then mask_upper_level M
            else codes ! b ! n ! l)"
  using assms
proof (induction ls arbitrary: codes)
  case Nil
  {
    case 1
    then show ?case by simp
  next
    case 2
    then show ?case by simp
  }
next
  case (Cons i ls)
  {
    case 1
    show ?case
    proof (cases "q < i")
      case True
      then show ?thesis using Cons.IH(1) [OF tensor3_fine_mask [OF 1]] by simp
    next
      case False
      then show ?thesis using Cons.IH(1) [OF 1] by simp
    qed
  next
    case 2
    show ?case
    proof (cases "q < i")
      case True
      have t3: "tensor3 B N Q (fine_mask M codes i t)" by (rule tensor3_fine_mask [OF 2(3)])
      show ?thesis
        using Cons.IH(2) [OF 2(1,2) t3] True nth_fine_mask [OF 2(3) 2(1,2), of M i t l]
        by auto
    next
      case False
      then show ?thesis using Cons.IH(2) [OF 2(1,2,3)] by auto
    qed
  }
qed

lemma level_view_fine_levels_fold:
  "level_view q (fold (\<lambda>i c. if q < i then fine_mask M c i t else c) ls codes) = level_view q codes"
  by (induction ls arbitrary: codes) (simp_all add: level_view_fine_mask_other)

lemma level_mask_Inr:
  assumes "t \<le> seq_len"
  shows "level_mask M code seq_len b t rand_times batched_randperm =
     Inr (where_then (level_mask_flags seq_len b t rand_times batched_randperm) (mask_token_id M) code,
          where_else (level_mask_flags seq_len b t rand_times batched_randperm) code (ignore_index M))"
  using assms by (simp add: level_mask_def Let_def)

lemma masking_loop_result:
  fixes seq_len batch t :: nat and rand_times :: "real list" and batched_randperm :: "nat list list"
  assumes "t \<le> seq_len"
  defines "flags \<equiv> level_mask_flags seq_len batch t rand_times batched_randperm"
  shows "masking_loop M seq_len batch q t rand_times batched_randperm ls (codes, masked_codes, label)
     = Inr (fold (\<lambda>i c. if q < i then fine_mask M c i t else c) ls codes,
            masked_codes @ map (\<lambda>i. if i = q
                 then Fresh (where_then flags (mask_token_id M) (level_view q codes))
                 else View i) ls,
            if q \<in> set ls then Some (where_else flags (level_view q codes) (ignore_index M))
            else label)"
proof (induction ls arbitrary: codes masked_codes label)
  case Nil
  then show ?case by simp
next
  case (Cons i ls)
  show ?case
  proof (cases "q = i")
    case True
    then show ?thesis
      using Cons.IH [of codes] level_mask_Inr [OF assms(1), of M "level_view q codes" batch rand_times batched_randperm]
      by (simp add: flags_def)
  next
    case False
    show ?thesis
    proof (cases "q < i")
      case True
      have "level_view q (fine_mask M codes i t) = level_view q codes"
        using True by (intro level_view_fine_mask_other) simp
      then show ?thesis
        using Cons.IH [of "fine_mask M codes i t"] True False by simp
    next
      case nl: False
      then show ?thesis using Cons.IH [of codes] False by simp
    qed
  qed
qed

lemma masking_result:
  fixes rand_times :: "real list" and batched_randperm :: "nat list list" and M :: soundstorm
  assumes t3: "tensor3 B N Q codes" and pos: "0 < B" "0 < N" and q: "q < Q" and t: "t \<le> N"
  defines "flags \<equiv> level_mask_flags N B t rand_times batched_randperm"
  defines "codes' \<equiv> fold (\<lambda>i c. if q < i then fine_mask M c i t else c) [0..<Q] codes"
  shows "masking M codes q t rand_times batched_randperm =
     Inr (map (\<lambda>i. if i = q then where_then flags (mask_token_id M) (level_view q codes)
                    else level_view i codes') [0..<Q],
          where_else flags (level_view q codes) (ignore_index M),
          codes')"
proof -
  note s = tensor3_shapes [OF t3 pos]
  have "masking_loop M N B q t rand_times batched_randperm [0..<Q] (codes, [], None)
     = Inr (codes',
            map (\<lambda>i. if i = q
                 then Fresh (where_then flags (mask_token_id M) (level_view q codes))
                 else View i) [0..<Q],
            Some (where_else flags (level_view q codes) (ignore_index M)))"
    using masking_loop_result [OF t, of M B q rand_times batched_randperm "[0..<Q]" codes "[]" None] q
    by (simp add: flags_def codes'_def)
  then show ?thesis
    by (simp add: masking_def Let_def s deref_def comp_def if_distrib [of "deref codes'"] cong: if_cong)
qed

lemma length_level_mask_flags:
  assumes "length rand_times = B" "length batched_randperm = B"
  shows "length (level_mask_flags N B t rand_times batched_randperm) = B"
  using assms by (simp add: level_mask_flags_def Let_def)

lemma nth_level_mask_flags:
  assumes "length rand_times = B" "length batched_randperm = B" "b < B"
  shows "level_mask_flags N B t rand_times batched_randperm ! b =
     replicate t False @
     map (\<lambda>r. real r < max (cosine_schedule (rand_times ! b) * real (N - t)) 1)
       (batched_randperm ! b)"
  using assms by (simp add: level_mask_flags_def Let_def)

lemma nth_where_then:
  assumes "b < length m" "b < length a"
  shows "where_then m v a ! b = map (\<lambda>(c, x). if c then v else x) (zip (m ! b) (a ! b))"
  using assms by (simp add: where_then_def)

lemma nth_where_else:
  assumes "b < length m" "b < length a"
  shows "where_else m a v ! b = map (\<lambda>(c, x). if c then x else v) (zip (m ! b) (a ! b))"
  using assms by (simp add: where_else_def)

text \<open>What \<open>masking\<close> returns, position by position.\<close>

lemma masking_pointwise:
  fixes rand_times :: "real list" and batched_randperm :: "nat list list" and M :: soundstorm
  assumes t3: "tensor3 B N Q codes" and pos: "0 < B" "0 < N" and q: "q < Q" and t: "t \<le> N"
    and draws: "length rand_times = B" "length batched_randperm = B"
      "\<forall>b < B. length (batched_randperm ! b) = N - t"
  defines "flags \<equiv> level_mask_flags N B t rand_times batched_randperm"
  shows "\<exists>masked label codes'.
     masking M codes q t rand_times batched_randperm = Inr (masked, label, codes') \<and>
     length masked = Q \<and>
     (\<forall>b < B. length (flags ! b) = N \<and> length (masked ! q ! b) = N) \<and>
     (\<forall>b < B. \<forall>n < N. masked ! q ! b ! n =
        (if flags ! b ! n then mask_token_id M else codes ! b ! n ! q)) \<and>
     (\<forall>b < B. \<forall>n < N. label ! b ! n =
        (if flags ! b ! n then codes ! b ! n ! q else ignore_index M)) \<and>
     (\<forall>i < Q. i \<noteq> q \<longrightarrow> (\<forall>b < B. \<forall>n < N. masked ! i ! b ! n =
        (if t \<le> n \<and> q < i then mask_upper_level M else codes ! b ! n ! i))) \<and>
     (\<forall>b < B. \<forall>n < N. \<forall>l. codes' ! b ! n ! l =
        (if t \<le> n \<and> q < l \<and> l < Q then mask_upper_level M else codes ! b ! n ! l))"
proof -
  define codes' where
    "codes' = fold (\<lambda>i c. if q < i then fine_mask M c i t else c) [0..<Q] codes"
  define masked where
    "masked = map (\<lambda>i. if i = q then where_then flags (mask_token_id M) (level_view q codes)
                    else level_view i codes') [0..<Q]"
  define label where "label = where_else flags (level_view q codes) (ignore_index M)"
  have res: "masking M codes q t rand_times batched_randperm = Inr (masked, label, codes')"
    using masking_result [OF t3 pos q t, of M rand_times batched_randperm]
    by (simp add: masked_def label_def codes'_def flags_def)
  have lm: "length masked = Q" by (simp add: masked_def)
  have t3': "tensor3 B N Q codes'"
    unfolding codes'_def by (rule fine_levels_fold(1) [OF t3])
  have nc: "codes' ! b ! n ! l =
        (if t \<le> n \<and> q < l \<and> l < Q then mask_upper_level M else codes ! b ! n ! l)"
    if "b < B" "n < N" for b n l
    using fine_levels_fold(2) [OF t3 that, of q M t "[0..<Q]" l] by (auto simp: codes'_def)
  have lf: "length flags = B"
    unfolding flags_def by (rule length_level_mask_flags [OF draws(1,2)])
  have lfb: "length (flags ! b) = N" if "b < B" for b
    using nth_level_mask_flags [OF draws(1,2) that, of N t] draws(3) that t
    by (simp add: flags_def)
  have lv: "length (level_view i c) = B" "\<And>b. b < B \<Longrightarrow> length (level_view i c ! b) = N"
    if "tensor3 B N Q c" for i c
    using length_level_view [OF that] by simp_all
  have mq: "masked ! q = where_then flags (mask_token_id M) (level_view q codes)"
    using q by (simp add: masked_def)
  have mqb: "masked ! q ! b =
      map (\<lambda>(c, x). if c then mask_token_id M else x) (zip (flags ! b) (level_view q codes ! b))"
    if "b < B" for b
    using that lf lv(1) [OF t3] by (simp add: mq nth_where_then)
  have lb: "label ! b =
      map (\<lambda>(c, x). if c then x else ignore_index M) (zip (flags ! b) (level_view q codes ! b))"
    if "b < B" for b
    using that lf lv(1) [OF t3] by (simp add: label_def nth_where_else)
  have c1: "\<forall>b < B. length (flags ! b) = N \<and> length (masked ! q ! b) = N"
    using lfb mqb lv(2) [OF t3] by simp
  have c2: "\<forall>b < B. \<forall>n < N. masked ! q ! b ! n =
        (if flags ! b ! n then mask_token_id M else codes ! b ! n ! q)"
    using lfb mqb lv(2) [OF t3] nth_level_view [OF t3] by simp
  have c3: "\<forall>b < B. \<forall>n < N. label ! b ! n =
        (if flags ! b ! n then codes ! b ! n ! q else ignore_index M)"
    using lfb lb lv(2) [OF t3] nth_level_view [OF t3] by simp
  have c4: "\<forall>i < Q. i \<noteq> q \<longrightarrow> (\<forall>b < B. \<forall>n < N. masked ! i ! b ! n =
        (if t \<le> n \<and> q < i then mask_upper_level M else codes ! b ! n ! i))"
  proof (intro allI impI)
    fix i b n assume i: "i < Q" "i \<noteq> q" and b: "b < B" and n: "n < N"
    have "masked ! i = level_view i codes'" using i by (simp add: masked_def)
    then have "masked ! i ! b ! n = codes' ! b ! n ! i"
      using nth_level_view [OF t3' b n] by simp
    then show "masked ! i ! b ! n =
        (if t \<le> n \<and> q < i then mask_upper_level M else codes ! b ! n ! i)"
      using nc [OF b n, of i] i by simp
  qed
  have c5: "\<forall>b < B. \<forall>n < N. \<forall>l. codes' ! b ! n ! l =
        (if t \<le> n \<and> q < l \<and> l < Q then mask_upper_level M else codes ! b ! n ! l)"
    using nc by blast
  have "masking M codes q t rand_times batched_randperm = Inr (masked, label, codes') \<and>
     length masked = Q \<and>
     (\<forall>b < B. length (flags ! b) = N \<and> length (masked ! q ! b) = N) \<and>
     (\<forall>b < B. \<forall>n < N. masked ! q ! b ! n =
        (if flags ! b ! n then mask_token_id M else codes ! b ! n ! q)) \<and>
     (\<forall>b < B. \<forall>n < N. label ! b ! n =
        (if flags ! b ! n then codes ! b ! n ! q else ignore_index M)) \<and>
     (\<forall>i < Q. i \<noteq> q \<longrightarrow> (\<forall>b < B. \<forall>n < N. masked ! i ! b ! n =
        (if t \<le> n \<and> q < i then mask_upper_level M else codes ! b ! n ! i))) \<and>
     (\<forall>b < B. \<forall>n < N. \<forall>l. codes' ! b ! n ! l =
        (if t \<le> n \<and> q < l \<and> l < Q then mask_upper_level M else codes ! b ! n ! l))"
    using res lm c1 c2 c3 c4 c5 by blast
  then show ?thesis by (intro exI)
qed

lemma prompt_flags_off:
  assumes "length rand_times = B" "length batched_randperm = B" "b < B" "n < t"
  shows "\<not> level_mask_flags N B t rand_times batched_randperm ! b ! n"
  using assms nth_level_mask_flags [OF assms(1,2,3), of N t] by (simp add: nth_append)

lemma count_where_then:
  assumes "length fl = length row" "\<forall>x \<in> set row. x \<noteq> v"
  shows "count_list (map (\<lambda>(c, x). if c then v else x) (zip fl row)) v
         = length (filter (\<lambda>c. c) fl)"
  using assms by (induction fl row rule: list_induct2) auto

lemma count_below_threshold:
  fixes x :: real
  assumes d: "distinct p" "set p = {0..<m}" and x: "0 < x" "x \<le> real m"
  shows "int (length (filter (\<lambda>r. real r < x) p)) = \<lceil>x\<rceil>"
proof -
  have c0: "0 < \<lceil>x\<rceil>" using x(1) by simp
  have cm: "\<lceil>x\<rceil> \<le> int m" using x(2) by (simp add: ceiling_le_iff)
  have iff: "real r < x \<longleftrightarrow> r < nat \<lceil>x\<rceil>" for r :: nat
  proof -
    have "real r < x \<longleftrightarrow> of_int (int r) < x" by simp
    also have "\<dots> \<longleftrightarrow> int r < \<lceil>x\<rceil>" by (simp only: less_ceiling_iff)
    also have "\<dots> \<longleftrightarrow> r < nat \<lceil>x\<rceil>" using c0 by linarith
    finally show ?thesis .
  qed
  have "length (filter (\<lambda>r. real r < x) p) = card ({r. real r < x} \<inter> set p)"
    by (rule distinct_length_filter [OF d(1)])
  also have "{r. real r < x} \<inter> set p = {0..<nat \<lceil>x\<rceil>}"
    using cm by (auto simp: d(2) iff)
  finally show ?thesis using c0 by simp
qed

lemma ceiling_max_one: "\<lceil>max a 1\<rceil> = max 1 \<lceil>a\<rceil>" for a :: real
proof (cases "a \<le> 1")
  case True
  then have "\<lceil>a\<rceil> \<le> 1" by (simp add: ceiling_le_iff)
  then have "max 1 \<lceil>a\<rceil> = 1" by linarith
  moreover have "max a 1 = 1" using True by linarith
  ultimately show ?thesis by simp
next
  case False
  then have "\<lceil>1 :: real\<rceil> \<le> \<lceil>a\<rceil>" by (intro ceiling_mono) simp
  then have "max 1 \<lceil>a\<rceil> = \<lceil>a\<rceil>" by simp
  moreover have "max a 1 = a" using False by linarith
  ultimately show ?thesis by simp
qed

lemma cosine_schedule_unit:
  assumes "0 \<le> u" "u \<le> 1"
  shows "0 \<le> cosine_schedule u" "cosine_schedule u \<le> 1" "cosine_schedule u = cos (u * pi / 2)"
proof -
  show e: "cosine_schedule u = cos (u * pi / 2)" by (simp add: cosine_schedule_def)
  have "u * pi / 2 \<le> 1 * pi / 2" using assms by (intro divide_right_mono mult_right_mono) simp_all
  then have "u * pi / 2 \<le> pi / 2" by simp
  moreover have "0 \<le> u * pi / 2" using assms by simp
  ultimately have "0 \<le> cos (u * pi / 2)" by (intro cos_ge_zero) linarith+
  then show "0 \<le> cosine_schedule u" by (simp only: e)
  show "cosine_schedule u \<le> 1" by (simp add: e)
qed

section \<open>The small training batch, evaluated\<close>

lemmas masking_eval = masking_def shape1_def shape2_def level_mask_def level_mask_flags_def
  where_then_def where_else_def fine_mask_def level_view_def deref_def

lemma demo_train_init: "SoundStorm_init demo_train_config = Inr demo_train_model"
  by (simp add: SoundStorm_init_def demo_train_config_def demo_train_model_def
      demo_config_def demo_model_def)

lemma demo_train_ids:
  "mask_token_id demo_train_model = 1025" "mask_upper_level demo_train_model = 1025"
  "ignore_index demo_train_model = 1025"
  by (simp_all add: demo_train_model_def demo_model_def)

lemma demo_codes_shape: "tensor3 1 3 2 demo_codes"
  by (simp add: tensor3_def demo_codes_def)

lemma sqrt2_bounds: "4 / 3 < sqrt 2" "sqrt 2 < 5 / 3"
proof -
  have "(4 / 3 :: real)\<^sup>2 < 2" by (simp add: power2_eq_square)
  then show "4 / 3 < sqrt 2" by (rule real_less_rsqrt)
  have "(2 :: real) < (5 / 3)\<^sup>2" by (simp add: power2_eq_square)
  then show "sqrt 2 < 5 / 3" by (intro real_less_lsqrt) simp_all
qed

lemma cosine_schedule_half: "cosine_schedule (1 / 2) * 3 = 3 * sqrt 2 / 2"
proof -
  have "(1 / 2 :: real) * pi * 0.5 = pi / 4" by simp
  then show ?thesis by (simp add: cosine_schedule_def cos_45)
qed

lemma round_half_schedule: "round (cos (1 / 2 * pi / 2) * real (3 - 0)) = 2"
proof -
  have "(1 / 2 :: real) * pi / 2 = pi / 4" by simp
  then have e: "cos (1 / 2 * pi / 2) * real (3 - 0) = 3 * sqrt 2 / 2" by (simp add: cos_45)
  have "\<lfloor>3 * sqrt 2 / 2 + 1 / 2\<rfloor> = 2"
    using sqrt2_bounds by (intro floor_unique) simp_all
  then show ?thesis by (simp only: e round_def)
qed

text \<open>The batch with the prefix 0 and the draw \<open>u = 1/2\<close>: \<open>r * 3 = 2.12...\<close>\<close>

lemma demo_masking_half:
  "masking demo_train_model demo_codes 0 0 [1 / 2] [[0, 1, 2]]
   = Inr ([[[1025, 1025, 1025]], [[1025, 1025, 1025]]], [[5, 7, 9]],
          [[[5, 1025], [7, 1025], [9, 1025]]])"
proof -
  have x: "2 < 3 * sqrt 2 / 2" using sqrt2_bounds(1) by simp
  then have m: "max (3 * sqrt 2 / 2) 1 = 3 * sqrt 2 / 2" by simp
  have f: "level_mask_flags 3 1 0 [1 / 2] [[0, 1, 2]] = [[True, True, True]]"
    using x by (simp add: level_mask_flags_def cosine_schedule_half m)
  show ?thesis
    using masking_result [OF demo_codes_shape, of 0 0 demo_train_model "[1 / 2]" "[[0, 1, 2]]"] f
    by (simp add: where_then_def where_else_def level_view_def fine_mask_def demo_train_ids
        demo_codes_def numeral_2_eq_2)
qed

text \<open>The batch with the prefix 1 and the draw \<open>u = 0\<close>: \<open>r * 2 = 2\<close>\<close>

lemma demo_masking_fine:
  "masking demo_train_model demo_codes 0 1 [0] [[0, 1]]
   = Inr ([[[5, 1025, 1025]], [[6, 1025, 1025]]], [[1025, 7, 9]],
          [[[5, 6], [7, 1025], [9, 1025]]])"
  by (simp add: masking_eval cosine_schedule_def demo_train_ids demo_codes_def)

section \<open>C1: the level after its inner loop\<close>

text \<open>
  C1, as stated, on the small generation. After the inner loop of level 0 (two steps, the
  schedule \<open>[1, 0]\<close>) position 1 holds the sampled code 6 and its flag is still set: the
  last step has the target 0 and leaves the flags alone. With no step configured for a
  level, its inner loop changes nothing and the level keeps the mask id 1025.
\<close>

theorem level_flags_counterexample:
  "generate_level demo_model demo_sample demo_prompt 2 0 ((), init_seq demo_model 2, init_mask 2)
   = Inr ((), [[5, 1025, 1025, 1025, 1025, 1025, 1025, 1025],
           [6, 1025, 1025, 1025, 1025, 1025, 1025, 1025]],
          [[False, True, True, True, True, True, True, True],
           [True, True, True, True, True, True, True, True]]) \<and>
   generate_level (demo_model\<lparr>steps := [0, 0, 0, 0, 0, 0, 0, 0]\<rparr>) demo_sample demo_prompt 2 0
     ((), init_seq demo_model 2, init_mask 2)
   = Inr ((), [[1025, 1025, 1025, 1025, 1025, 1025, 1025, 1025],
           [1025, 1025, 1025, 1025, 1025, 1025, 1025, 1025]],
          [[True, True, True, True, True, True, True, True],
           [True, True, True, True, True, True, True, True]])"
proof -
  have "all_mask_num_tokens 0 2 = []"
    by (simp add: all_mask_num_tokens_def linspace_def)
  then have "generate_level (demo_model\<lparr>steps := [0, 0, 0, 0, 0, 0, 0, 0]\<rparr>) demo_sample
      demo_prompt 2 0 ((), init_seq demo_model 2, init_mask 2)
      = Inr ((), init_seq demo_model 2, init_mask 2)"
    by (simp add: generate_level_def)
  then show ?thesis using demo_level0 by (simp add: demo_init_buffers)
qed

text \<open>
  C1, amended: in every generation, for every level \<open>k\<close> with at least one step, the inner
  loop of level \<open>k\<close> returns and afterwards every continuation position of level \<open>k\<close> holds
  a sampled code (below 1025), not the mask id. The flags of the level are not cleared: they
  are the flags left before the last step.
\<close>

theorem level_resolves_buffer:
  assumes init: "SoundStorm_init cfg = Inr M"
    and ok: "sampler_ok sample N"
    and k: "k < 8" "k < length (steps M)"
    and start: "generate_levels M sample prompt N [0..<k] (g0, init_seq M N, init_mask N)
                  = Inr (g, seq, msk)"
  shows "\<exists>g1 seq1 msk1 g' seq' msk'.
      generate_steps M sample prompt k (butlast (all_mask_num_tokens (steps M ! k) N)) (g, seq, msk)
        = Inr (g1, seq1, msk1) \<and>
      generate_level M sample prompt N k (g, seq, msk) = Inr (g', seq', msk') \<and>
      (0 < steps M ! k \<longrightarrow>
         (\<forall>n < N. seq' ! n ! k < 1025 \<and> seq' ! n ! k \<noteq> mask_token_id M) \<and> msk' = msk1)"
proof -
  let ?sched = "all_mask_num_tokens (steps M ! k) N"
  have mid: "mask_token_id M = 1025" by (rule init_mask_token_id [OF init])
  from level_start [OF ok k(1), of M prompt g0] k(2) start
  have sh: "shaped N seq" "shaped N msk"
    and un: "col k seq = replicate N (mask_token_id M)" "col k msk = replicate N True"
    using k(1) by auto
  have inv: "resolved_unless_flagged M N k seq msk" by (rule untouched_level(1) [OF sh un])
  have rb: "\<forall>c \<in> set (butlast ?sched). 0 \<le> c \<and> c \<le> int N"
    using schedule_bounds by (meson in_set_butlastD)
  from generate_steps_frame [OF ok k(1) rb sh, of M prompt g]
  obtain g1 seq1 msk1 where
    s1: "generate_steps M sample prompt k (butlast ?sched) (g, seq, msk) = Inr (g1, seq1, msk1)"
    and sh1: "shaped N seq1" "shaped N msk1"
    by blast
  from generate_steps_frame [OF ok k(1) schedule_in_range sh, of M prompt "steps M ! k" g]
  obtain g' seq' msk' where
    s2: "generate_steps M sample prompt k ?sched (g, seq, msk) = Inr (g', seq', msk')"
    by blast
  have lv: "generate_level M sample prompt N k (g, seq, msk) = Inr (g', seq', msk')"
    using s2 k(2) by (simp add: generate_level_def)
  have fin: "(\<forall>n < N. seq' ! n ! k < 1025 \<and> seq' ! n ! k \<noteq> mask_token_id M) \<and> msk' = msk1"
    if S: "0 < steps M ! k"
  proof -
    have ne: "?sched \<noteq> []" using S length_all_mask_num_tokens [of "steps M ! k" N] by auto
    have l0: "last ?sched = 0" by (rule schedule_last [OF S])
    from steps_after_target [OF mid ok k(1) schedule_in_range ne sh inv s2]
    have "after_target M N k 0 seq' msk'" by (simp add: l0)
    then have a: "\<forall>n < N. seq' ! n ! k < 1025 \<and> seq' ! n ! k \<noteq> mask_token_id M"
      using mid by (auto simp: after_target_def)
    have "butlast ?sched @ [0] = ?sched" using ne l0 by (metis append_butlast_last_id)
    then have "generate_steps M sample prompt k ?sched (g, seq, msk)
               = generate_step M sample prompt k 0 (g1, seq1, msk1)"
      using generate_steps_snoc [OF s1, of 0] by simp
    then have z: "generate_step M sample prompt k 0 (g1, seq1, msk1) = Inr (g', seq', msk')"
      using s2 by simp
    obtain ids sc g2 where smp: "sample g1 (prompt @ seq1) k = (ids, sc, g2)"
      by (cases "sample g1 (prompt @ seq1) k") auto
    note d = sampler_okD [OF ok smp]
    have "length ids = length seq1" "length sc = length seq1"
      using d sh1 by (simp_all add: shaped_def)
    from generate_step_zero [of sample g1 prompt seq1 k ids sc g2 M msk1, OF smp this] z
    have "msk' = msk1" by simp
    then show ?thesis using a by simp
  qed
  have "generate_steps M sample prompt k (butlast ?sched) (g, seq, msk) = Inr (g1, seq1, msk1) \<and>
      generate_level M sample prompt N k (g, seq, msk) = Inr (g', seq', msk') \<and>
      (0 < steps M ! k \<longrightarrow>
         (\<forall>n < N. seq' ! n ! k < 1025 \<and> seq' ! n ! k \<noteq> mask_token_id M) \<and> msk' = msk1)"
    using s1 lv fin by simp
  then show ?thesis by (intro exI)
qed

text \<open>C1, the amended claim at level 0 of the small generation.\<close>

theorem level_resolves_buffer_witness:
  "SoundStorm_init demo_config = Inr demo_model \<and> sampler_ok demo_sample 2 \<and>
   (0::nat) < 8 \<and> 0 < length (steps demo_model) \<and> 0 < steps demo_model ! 0 \<and>
   generate_levels demo_model demo_sample demo_prompt 2 [0..<0] ((), init_seq demo_model 2, init_mask 2)
     = Inr ((), init_seq demo_model 2, init_mask 2) \<and>
   (\<exists>g' seq' msk'.
      generate_level demo_model demo_sample demo_prompt 2 0 ((), init_seq demo_model 2, init_mask 2)
        = Inr (g', seq', msk') \<and>
      seq' ! 0 ! 0 < 1025 \<and> seq' ! 1 ! 0 < 1025)"
proof -
  have k: "(0::nat) < 8" "0 < length (steps demo_model)" "0 < steps demo_model ! 0"
    by (simp_all add: demo_model_def)
  have start: "generate_levels demo_model demo_sample demo_prompt 2 [0..<0] ((), init_seq demo_model 2, init_mask 2)
     = Inr ((), init_seq demo_model 2, init_mask 2)"
    by simp
  from level_resolves_buffer [OF demo_init demo_sampler_ok k(1,2) start]
  obtain g' seq' msk' where
    "generate_level demo_model demo_sample demo_prompt 2 0 ((), init_seq demo_model 2, init_mask 2)
        = Inr (g', seq', msk')"
    and "\<forall>n < 2. seq' ! n ! 0 < 1025 \<and> seq' ! n ! 0 \<noteq> mask_token_id demo_model"
    using k(3) by auto
  then have "\<exists>g' seq' msk'.
      generate_level demo_model demo_sample demo_prompt 2 0 ((), init_seq demo_model 2, init_mask 2)
        = Inr (g', seq', msk') \<and>
      seq' ! 0 ! 0 < 1025 \<and> seq' ! 1 ! 0 < 1025"
    by auto
  then show ?thesis using demo_init demo_sampler_ok k start by simp
qed

section \<open>C2: schedule conformance\<close>

text \<open>
  C2, as stated, on the small generation, with the positions left masked read as the
  positions whose masked flag is set. Level 1 has one step over two positions; its target is
  \<open>cos(pi/2) * 2 = 0\<close> (in 32-bit floats a product of about \<open>-9e-8\<close>, which \<^verbatim>\<open>.long()\<close>
  truncates to 0), so the step fills both positions and leaves the flags alone. After the
  step, the last of the level, both flags of level 1 are still set while
  \<open>round(cos(pi/2 * 1/1) * 2)\<close> is 0: the difference is 2. No position of the level holds the
  mask id.
\<close>

theorem masked_flags_counterexample:
  "generate_levels_f32 exact_product demo_model demo_sample demo_prompt 2 [0, 1]
     ((), init_seq demo_model 2, init_mask 2)
   = Inr ((), [[5, 5, 1025, 1025, 1025, 1025, 1025, 1025],
               [6, 6, 1025, 1025, 1025, 1025, 1025, 1025]],
              [[False, True, True, True, True, True, True, True],
               [True, True, True, True, True, True, True, True]]) \<and>
   masked_count 1 [[False, True, True, True, True, True, True, True],
                   [True, True, True, True, True, True, True, True]] = 2 \<and>
   mask_id_count demo_model 1 [[5, 5, 1025, 1025, 1025, 1025, 1025, 1025],
                               [6, 6, 1025, 1025, 1025, 1025, 1025, 1025]] = 0 \<and>
   steps demo_model ! 1 = 1 \<and>
   round (cos (pi / 2 * (1 / 1)) * 2) = 0"
proof -
  have "generate_levels demo_model demo_sample demo_prompt 2 [0, 1]
     ((), init_seq demo_model 2, init_mask 2)
   = Inr ((), [[5, 5, 1025, 1025, 1025, 1025, 1025, 1025],
               [6, 6, 1025, 1025, 1025, 1025, 1025, 1025]],
              [[False, True, True, True, True, True, True, True],
               [True, True, True, True, True, True, True, True]])"
    using demo_level0 demo_level1 by simp
  then show ?thesis
    by (simp add: generate_levels_exact masked_count_def mask_id_count_def col_def demo_model_def)
qed

text \<open>
  C2, amended: in every generation, at every level \<open>k\<close> with \<open>S\<close> steps over \<open>N\<close> continuation
  positions, given a sampler that returns well-shaped ids and scores and a float product
  accurate to one half, the generation reaches level \<open>k\<close>, runs its first \<open>i\<close> steps (\<open>i\<close> from 0
  to \<open>S\<close>) and goes on from that state. After these \<open>i\<close> steps the number of positions of the
  level that hold the mask id is the target of step \<open>i\<close>, the truncated float product (\<open>N\<close>
  for \<open>i = 0\<close>), which is within 1 of \<open>round(cos(pi/2 * i/S) * N)\<close>. The number of flags
  set is the last target so far that was not 0 (\<open>N\<close> when there is none): a step with the
  target 0 leaves the flags as they were.

  \<open>sched\<close> is the schedule of the level. The third and fourth conjunct place the state
  after step \<open>i\<close> in the run of the level and of \<open>generate\<close>; the fifth and sixth say that
  the definitions over the exact product are the case \<open>exact_product\<close> of the ones used here.
\<close>

theorem schedule_conformance:
  assumes init: "SoundStorm_init cfg = Inr M"
    and N: "N = num_latents_to_generate conds"
    and prompt: "prompt = take (num_prompt conds) codes"
    and ok: "sampler_ok sample N"
    and acc: "accurate_product fprod N"
    and k: "k < 8" "k < length (steps M)"
    and sched: "sched = map long (fprod (steps M ! k) N)"
    and i: "i \<le> steps M ! k"
  shows "\<exists>g seq msk g' seq' msk'.
      generate_levels_f32 fprod M sample prompt N [0..<k] (g0, init_seq M N, init_mask N)
        = Inr (g, seq, msk) \<and>
      generate_steps M sample prompt k (take i sched) (g, seq, msk) = Inr (g', seq', msk') \<and>
      generate_level_f32 fprod M sample prompt N k (g, seq, msk)
        = generate_steps M sample prompt k (drop i sched) (g', seq', msk') \<and>
      generate_f32 fprod M sample g0 conds codes
        = (case generate_steps M sample prompt k (drop i sched) (g', seq', msk') of
             Inl e \<Rightarrow> Inl e
           | Inr st \<Rightarrow>
               (case generate_levels_f32 fprod M sample prompt N [Suc k..<8] st of
                  Inl e \<Rightarrow> Inl e
                | Inr (g2, seq2, msk2) \<Rightarrow> Inr (prompt @ seq2))) \<and>
      generate_level M sample prompt N k (g, seq, msk)
        = generate_level_f32 exact_product M sample prompt N k (g, seq, msk) \<and>
      generate M sample g0 conds codes = generate_f32 exact_product M sample g0 conds codes \<and>
      int (mask_id_count M k seq') = last (int N # take i sched) \<and>
      \<bar>int (mask_id_count M k seq') - round (cos (pi / 2 * (real i / real (steps M ! k))) * real N)\<bar>
        \<le> 1 \<and>
      int (masked_count k msk') = last (int N # filter (\<lambda>c. c \<noteq> 0) (take i sched))"
proof -
  let ?S = "steps M ! k"
  have mid: "mask_token_id M = 1025" by (rule init_mask_token_id [OF init])
  have kl: "k \<le> length (steps M)" using k(2) by simp
  from level_start_f32 [OF ok acc k(1) kl, of prompt g0]
  obtain g seq msk where
    start: "generate_levels_f32 fprod M sample prompt N [0..<k] (g0, init_seq M N, init_mask N)
              = Inr (g, seq, msk)"
    and sh: "shaped N seq" "shaped N msk"
    and un: "col k seq = replicate N (mask_token_id M)" "col k msk = replicate N True"
    using k(1) by blast
  have rng: "\<forall>c \<in> set (take i sched). 0 \<le> c \<and> c \<le> int N"
    unfolding sched by (rule f32_schedule_take_in_range [OF acc])
  from generate_steps_frame [OF ok k(1) rng sh, of M prompt g]
  obtain g' seq' msk' where
    st: "generate_steps M sample prompt k (take i sched) (g, seq, msk) = Inr (g', seq', msk')"
    by blast
  have "generate_level_f32 fprod M sample prompt N k (g, seq, msk)
        = generate_steps M sample prompt k (take i sched @ drop i sched) (g, seq, msk)"
    using k(2) by (simp add: generate_level_f32_def sched)
  also have "\<dots> = generate_steps M sample prompt k (drop i sched) (g', seq', msk')"
    using st by (simp only: generate_steps_append sum.case)
  finally have t1: "generate_level_f32 fprod M sample prompt N k (g, seq, msk)
        = generate_steps M sample prompt k (drop i sched) (g', seq', msk')" .
  have t2: "generate_f32 fprod M sample g0 conds codes
        = (case generate_steps M sample prompt k (drop i sched) (g', seq', msk') of
             Inl e \<Rightarrow> Inl e
           | Inr st \<Rightarrow>
               (case generate_levels_f32 fprod M sample prompt N [Suc k..<8] st of
                  Inl e \<Rightarrow> Inl e
                | Inr (g2, seq2, msk2) \<Rightarrow> Inr (prompt @ seq2)))"
    using generate_f32_through_level [OF k(1) start [unfolded N prompt]]
    unfolding N prompt t1 [unfolded N prompt] .
  have c1: "int (mask_id_count M k seq') = last (int N # take i sched)"
    by (rule steps_mask_id_count [OF mid ok k(1) rng sh un st])
  have "int (masked_count k msk')
          = last (int (masked_count k msk) # filter (\<lambda>c. c \<noteq> 0) (take i sched))"
    by (rule steps_masked_count [OF ok k(1) rng sh st])
  then have c3: "int (masked_count k msk') = last (int N # filter (\<lambda>c. c \<noteq> 0) (take i sched))"
    by (simp only: untouched_level(3) [OF sh un])
  have c2: "\<bar>int (mask_id_count M k seq')
              - round (cos (pi / 2 * (real i / real ?S)) * real N)\<bar> \<le> 1"
  proof (cases "i = 0")
    case True
    then show ?thesis using c1 by simp
  next
    case False
    then have i1: "i - 1 < ?S" "Suc (i - 1) = i" using i by simp_all
    have ls: "length sched = ?S" by (simp add: sched accurate_productD(1) [OF acc])
    then have li: "length (take i sched) = i" using i by simp
    then have ne: "take i sched \<noteq> []" using False by auto
    have "last (int N # take i sched) = last (take i sched)" using ne by simp
    also have "\<dots> = take i sched ! (i - 1)" using ne li by (simp add: last_conv_nth)
    also have "\<dots> = sched ! (i - 1)" using False by simp
    finally have "int (mask_id_count M k seq') = map long (fprod ?S N) ! (i - 1)"
      using c1 by (simp add: sched)
    then show ?thesis using f32_schedule_nth(3) [OF acc i1(1)] by (simp only: i1(2))
  qed
  have e1: "generate_level M sample prompt N k (g, seq, msk)
        = generate_level_f32 exact_product M sample prompt N k (g, seq, msk)"
    by (rule generate_level_exact)
  have e2: "generate M sample g0 conds codes = generate_f32 exact_product M sample g0 conds codes"
    by (rule generate_exact)
  have "generate_levels_f32 fprod M sample prompt N [0..<k] (g0, init_seq M N, init_mask N)
        = Inr (g, seq, msk) \<and>
      generate_steps M sample prompt k (take i sched) (g, seq, msk) = Inr (g', seq', msk') \<and>
      generate_level_f32 fprod M sample prompt N k (g, seq, msk)
        = generate_steps M sample prompt k (drop i sched) (g', seq', msk') \<and>
      generate_f32 fprod M sample g0 conds codes
        = (case generate_steps M sample prompt k (drop i sched) (g', seq', msk') of
             Inl e \<Rightarrow> Inl e
           | Inr st \<Rightarrow>
               (case generate_levels_f32 fprod M sample prompt N [Suc k..<8] st of
                  Inl e \<Rightarrow> Inl e
                | Inr (g2, seq2, msk2) \<Rightarrow> Inr (prompt @ seq2))) \<and>
      generate_level M sample prompt N k (g, seq, msk)
        = generate_level_f32 exact_product M sample prompt N k (g, seq, msk) \<and>
      generate M sample g0 conds codes = generate_f32 exact_product M sample g0 conds codes \<and>
      int (mask_id_count M k seq') = last (int N # take i sched) \<and>
      \<bar>int (mask_id_count M k seq') - round (cos (pi / 2 * (real i / real (steps M ! k))) * real N)\<bar>
        \<le> 1 \<and>
      int (masked_count k msk') = last (int N # filter (\<lambda>c. c \<noteq> 0) (take i sched))"
    using start st t1 t2 e1 e2 c1 c2 c3 by (intro conjI)
  then show ?thesis by (intro exI)
qed

text \<open>
  C2, amended, after the two steps of level 0 of the small generation (the schedule
  \<open>[1, 0]\<close>, in 32-bit floats as over the reals): no mask id is left and one flag is set.
\<close>

theorem schedule_conformance_witness:
  "SoundStorm_init demo_config = Inr demo_model \<and>
   2 = num_latents_to_generate [0 :: nat, 0] \<and>
   demo_prompt = take (num_prompt [0 :: nat, 0])
                   [[7, 7, 7, 7, 7, 7, 7, 7], [8, 8, 8, 8, 8, 8, 8, 8], [9, 9, 9, 9, 9, 9, 9, 9]] \<and>
   sampler_ok demo_sample 2 \<and> accurate_product exact_product 2 \<and>
   (0::nat) < 8 \<and> 0 < length (steps demo_model) \<and>
   [1, 0] = map long (exact_product (steps demo_model ! 0) 2) \<and>
   2 \<le> steps demo_model ! 0 \<and>
   (\<exists>g' seq' msk'.
      generate_steps demo_model demo_sample demo_prompt 0 (take 2 [1, 0])
        ((), init_seq demo_model 2, init_mask 2) = Inr (g', seq', msk') \<and>
      mask_id_count demo_model 0 seq' = 0 \<and> masked_count 0 msk' = 1)"
proof -
  have N: "2 = num_latents_to_generate [0 :: nat, 0]"
    by (simp add: num_latents_to_generate_def num_latents_input_def num_prompt_def)
  have p: "demo_prompt = take (num_prompt [0 :: nat, 0])
                   [[7, 7, 7, 7, 7, 7, 7, 7], [8, 8, 8, 8, 8, 8, 8, 8], [9, 9, 9, 9, 9, 9, 9, 9]]"
    by (simp add: demo_prompt_def num_prompt_def num_latents_input_def)
  have k: "(0::nat) < 8" "0 < length (steps demo_model)" "2 \<le> steps demo_model ! 0"
    by (simp_all add: demo_model_def)
  have "steps demo_model ! 0 = 2" by (simp add: demo_model_def)
  then have sched: "[1, 0] = map long (exact_product (steps demo_model ! 0) 2)"
    using demo_schedule by (simp add: all_mask_num_tokens_exact)
  have start: "generate_levels_f32 exact_product demo_model demo_sample demo_prompt 2 [0..<0]
      ((), init_seq demo_model 2, init_mask 2) = Inr ((), init_seq demo_model 2, init_mask 2)"
    by simp
  from schedule_conformance [OF demo_init N p demo_sampler_ok accurate_exact_product k(1,2)
      sched k(3), of "()"]
  obtain g seq msk g' seq' msk' where
    "generate_levels_f32 exact_product demo_model demo_sample demo_prompt 2 [0..<0]
       ((), init_seq demo_model 2, init_mask 2) = Inr (g, seq, msk)"
    and "generate_steps demo_model demo_sample demo_prompt 0 (take 2 [1, 0]) (g, seq, msk)
       = Inr (g', seq', msk')"
    and "int (mask_id_count demo_model 0 seq') = last (int 2 # take 2 [1, 0])"
    and "int (masked_count 0 msk') = last (int 2 # filter (\<lambda>c. c \<noteq> 0) (take 2 [1, 0]))"
    by blast
  then have "generate_steps demo_model demo_sample demo_prompt 0 (take 2 [1, 0])
        ((), init_seq demo_model 2, init_mask 2) = Inr (g', seq', msk') \<and>
      mask_id_count demo_model 0 seq' = 0 \<and> masked_count 0 msk' = 1"
    by simp
  then have "\<exists>g' seq' msk'.
      generate_steps demo_model demo_sample demo_prompt 0 (take 2 [1, 0])
        ((), init_seq demo_model 2, init_mask 2) = Inr (g', seq', msk') \<and>
      mask_id_count demo_model 0 seq' = 0 \<and> masked_count 0 msk' = 1"
    by (intro exI)
  then show ?thesis using demo_init N p demo_sampler_ok accurate_exact_product k sched
    by (intro conjI)
qed

section \<open>C3: the source of re-masked positions\<close>

text \<open>
  C3: in every generation, at every step of every level \<open>k\<close>, the step returns and every
  position whose flag is set after the step had its flag set before the step. The flags
  cover only the continuation positions, so no prompt position is among them; a position
  of the level that was resolved before the step keeps its code; the flags and codes of
  all other levels are unchanged.
\<close>

theorem remask_source_restriction:
  assumes init: "SoundStorm_init cfg = Inr M"
    and ok: "sampler_ok sample N"
    and k: "k < 8" "k < length (steps M)"
    and start: "generate_levels M sample prompt N [0..<k] (g0, init_seq M N, init_mask N)
                  = Inr (g, seq, msk)"
    and i: "i < steps M ! k"
    and before: "generate_steps M sample prompt k (take i (all_mask_num_tokens (steps M ! k) N))
                   (g, seq, msk) = Inr (g1, seq1, msk1)"
  shows "\<exists>g2 seq2 msk2.
      generate_step M sample prompt k (all_mask_num_tokens (steps M ! k) N ! i) (g1, seq1, msk1)
        = Inr (g2, seq2, msk2) \<and>
      length msk2 = N \<and>
      (\<forall>n < N. msk2 ! n ! k \<longrightarrow> msk1 ! n ! k) \<and>
      (\<forall>n < N. \<not> msk1 ! n ! k \<longrightarrow> seq2 ! n ! k = seq1 ! n ! k) \<and>
      (\<forall>l. l \<noteq> k \<longrightarrow> col l msk2 = col l msk1 \<and> col l seq2 = col l seq1)"
proof -
  let ?S = "steps M ! k"
  let ?sched = "all_mask_num_tokens ?S N"
  let ?c = "?sched ! i"
  have mid: "mask_token_id M = 1025" by (rule init_mask_token_id [OF init])
  from level_start [OF ok k(1), of M prompt g0] k(2) start
  have sh: "shaped N seq" "shaped N msk"
    and un: "col k seq = replicate N (mask_token_id M)" "col k msk = replicate N True"
    using k(1) by auto
  from generate_steps_frame [OF ok k(1) schedule_take_in_range sh, of M prompt i ?S g] before
  have sh1: "shaped N seq1" "shaped N msk1" by auto
  have cin: "?c \<in> set ?sched" using i by (simp add: length_all_mask_num_tokens)
  have c: "0 \<le> ?c" "?c \<le> int N" using schedule_bounds [OF cin] by simp_all
  from generate_step_frame [OF ok sh1 k(1) c, of M prompt g1]
  obtain g2 seq2 msk2 where
    st: "generate_step M sample prompt k ?c (g1, seq1, msk1) = Inr (g2, seq2, msk2)"
    and sh2: "shaped N seq2" "shaped N msk2"
    and fr: "\<forall>l'. l' \<noteq> k \<longrightarrow> col l' seq2 = col l' seq1 \<and> col l' msk2 = col l' msk1"
    by blast
  have cm: "?c \<le> int (masked_count k msk1)"
  proof (cases "i = 0")
    case True
    then have "msk1 = msk" using before by simp
    then show ?thesis using c(2) untouched_level(3) [OF sh un] by simp
  next
    case False
    then have i0: "0 < i" "i \<le> ?S" using i by simp_all
    let ?p = "\<lfloor>cos (pi / 2 * (real i / real ?S)) * real N\<rfloor>"
    have a: "after_target M N k ?p seq1 msk1"
      by (rule level_after_steps [OF mid ok k(1) sh un i0 before])
    have "?sched ! (i - 1) = \<lfloor>cos (pi / 2 * (real (Suc (i - 1)) / real ?S)) * real N\<rfloor>"
      using i by (intro nth_all_mask_num_tokens) simp
    then have p: "?sched ! (i - 1) = ?p" using i0 by simp
    have le: "?c \<le> ?p" using schedule_antimono [of "i - 1" i ?S N] i p by simp
    show ?thesis
    proof (cases "?p = 0")
      case True
      then show ?thesis using le c(1) by simp
    next
      case False
      then have "int (masked_count k msk1) = ?p" using a by (simp add: after_target_def)
      then show ?thesis using le by simp
    qed
  qed
  have sub: "\<forall>n < N. msk2 ! n ! k \<longrightarrow> msk1 ! n ! k"
    by (rule step_remask_subset [OF ok sh1 k(1) c(1) cm st])
  have keep: "\<forall>n < N. \<not> msk1 ! n ! k \<longrightarrow> seq2 ! n ! k = seq1 ! n ! k"
    using step_keeps_resolved [OF ok sh1 k(1) c st] sub by blast
  have fr': "\<forall>l. l \<noteq> k \<longrightarrow> col l msk2 = col l msk1 \<and> col l seq2 = col l seq1"
    using fr by simp
  have "generate_step M sample prompt k ?c (g1, seq1, msk1) = Inr (g2, seq2, msk2) \<and>
      length msk2 = N \<and>
      (\<forall>n < N. msk2 ! n ! k \<longrightarrow> msk1 ! n ! k) \<and>
      (\<forall>n < N. \<not> msk1 ! n ! k \<longrightarrow> seq2 ! n ! k = seq1 ! n ! k) \<and>
      (\<forall>l. l \<noteq> k \<longrightarrow> col l msk2 = col l msk1 \<and> col l seq2 = col l seq1)"
    using st sh2(2) sub keep fr' by (simp add: shaped_def)
  then show ?thesis by (intro exI)
qed

text \<open>
  C3 at the second step of level 0 of the generation over three positions, whose target is
  1. Before the step position 0 is resolved with the code 5, and the positions 1 and 2 are
  masked. The sampler gives position 0 the highest score, 0.9, yet the step masks position 1
  again (score 0.5), resolves position 2 and leaves position 0 and level 1 as they were.
\<close>

theorem remask_source_restriction_witness:
  "SoundStorm_init demo3_config = Inr demo3_model \<and> sampler_ok demo3_sample 3 \<and>
   (0::nat) < 8 \<and> 0 < length (steps demo3_model) \<and> 1 < steps demo3_model ! 0 \<and>
   generate_levels demo3_model demo3_sample demo_prompt 3 [0..<0] (0, init_seq demo3_model 3, init_mask 3)
     = Inr (0, init_seq demo3_model 3, init_mask 3) \<and>
   generate_steps demo3_model demo3_sample demo_prompt 0
     (take 1 (all_mask_num_tokens (steps demo3_model ! 0) 3)) (0, init_seq demo3_model 3, init_mask 3)
     = Inr (1, [[5, 1025, 1025, 1025, 1025, 1025, 1025, 1025],
            [1025, 1025, 1025, 1025, 1025, 1025, 1025, 1025],
            [1025, 1025, 1025, 1025, 1025, 1025, 1025, 1025]],
           [[False, True, True, True, True, True, True, True],
            [True, True, True, True, True, True, True, True],
            [True, True, True, True, True, True, True, True]]) \<and>
   all_mask_num_tokens (steps demo3_model ! 0) 3 ! 1 = 1 \<and>
   (\<exists>g2 seq2 msk2.
      generate_step demo3_model demo3_sample demo_prompt 0
        (all_mask_num_tokens (steps demo3_model ! 0) 3 ! 1)
        (1, [[5, 1025, 1025, 1025, 1025, 1025, 1025, 1025],
            [1025, 1025, 1025, 1025, 1025, 1025, 1025, 1025],
            [1025, 1025, 1025, 1025, 1025, 1025, 1025, 1025]],
           [[False, True, True, True, True, True, True, True],
            [True, True, True, True, True, True, True, True],
            [True, True, True, True, True, True, True, True]])
        = Inr (g2, seq2, msk2) \<and>
      length msk2 = 3 \<and> \<not> msk2 ! 0 ! 0 \<and> seq2 ! 0 ! 0 = 5 \<and>
      col 1 msk2 = [True, True, True] \<and> col 1 seq2 = [1025, 1025, 1025] \<and>
      col 0 msk2 = [False, True, False] \<and> col 0 seq2 = [5, 1025, 7])"
proof -
  have k: "(0::nat) < 8" "0 < length (steps demo3_model)" "1 < steps demo3_model ! 0"
    by (simp_all add: demo3_model_def)
  have S: "steps demo3_model ! 0 = 3" by (simp add: demo3_model_def)
  have start: "generate_levels demo3_model demo3_sample demo_prompt 3 [0..<0] (0, init_seq demo3_model 3, init_mask 3)
     = Inr (0, init_seq demo3_model 3, init_mask 3)"
    by simp
  have before: "generate_steps demo3_model demo3_sample demo_prompt 0
     (take 1 (all_mask_num_tokens (steps demo3_model ! 0) 3)) (0, init_seq demo3_model 3, init_mask 3)
     = Inr (1, [[5, 1025, 1025, 1025, 1025, 1025, 1025, 1025],
            [1025, 1025, 1025, 1025, 1025, 1025, 1025, 1025],
            [1025, 1025, 1025, 1025, 1025, 1025, 1025, 1025]],
           [[False, True, True, True, True, True, True, True],
            [True, True, True, True, True, True, True, True],
            [True, True, True, True, True, True, True, True]])"
    using demo3_step1 by (simp add: S demo3_schedule demo3_init_buffers)
  have c: "all_mask_num_tokens (steps demo3_model ! 0) 3 ! 1 = 1"
    by (simp add: S demo3_schedule)
  from remask_source_restriction [OF demo3_init demo3_sampler_ok k(1,2) start k(3) before]
  obtain g2 seq2 msk2 where
    st: "generate_step demo3_model demo3_sample demo_prompt 0
        (all_mask_num_tokens (steps demo3_model ! 0) 3 ! 1)
        (1, [[5, 1025, 1025, 1025, 1025, 1025, 1025, 1025],
            [1025, 1025, 1025, 1025, 1025, 1025, 1025, 1025],
            [1025, 1025, 1025, 1025, 1025, 1025, 1025, 1025]],
           [[False, True, True, True, True, True, True, True],
            [True, True, True, True, True, True, True, True],
            [True, True, True, True, True, True, True, True]])
        = Inr (g2, seq2, msk2)"
    and len: "length msk2 = 3"
    and sub: "\<forall>n < 3. msk2 ! n ! 0 \<longrightarrow>
           [[False, True, True, True, True, True, True, True],
            [True, True, True, True, True, True, True, True],
            [True, True, True, True, True, True, True, True]] ! n ! 0"
    and keep: "\<forall>n < 3. \<not> [[False, True, True, True, True, True, True, True],
            [True, True, True, True, True, True, True, True],
            [True, True, True, True, True, True, True, True]] ! n ! 0 \<longrightarrow>
           seq2 ! n ! 0 = [[5, 1025, 1025, 1025, 1025, 1025, 1025, 1025],
            [1025, 1025, 1025, 1025, 1025, 1025, 1025, 1025],
            [1025, 1025, 1025, 1025, 1025, 1025, 1025, 1025 :: nat]] ! n ! 0"
    and fr: "\<forall>l. l \<noteq> 0 \<longrightarrow>
           col l msk2 = col l [[False, True, True, True, True, True, True, True],
            [True, True, True, True, True, True, True, True],
            [True, True, True, True, True, True, True, True]] \<and>
           col l seq2 = col l [[5, 1025, 1025, 1025, 1025, 1025, 1025, 1025],
            [1025, 1025, 1025, 1025, 1025, 1025, 1025, 1025],
            [1025, 1025, 1025, 1025, 1025, 1025, 1025, 1025]]"
    by blast
  have z: "(0::nat) < 3" by simp
  have a: "\<not> msk2 ! 0 ! 0" using sub [rule_format, OF z] by auto
  have b: "seq2 ! 0 ! 0 = 5" using keep [rule_format, OF z] by simp
  have d: "col 1 msk2 = [True, True, True]" "col 1 seq2 = [1025, 1025, 1025]"
    using fr by (simp_all add: col_def)
  have e: "col 0 msk2 = [False, True, False]" "col 0 seq2 = [5, 1025, 7]"
    using st [unfolded c] demo3_step2 by (simp_all add: col_def)
  have "(\<exists>g2 seq2 msk2.
      generate_step demo3_model demo3_sample demo_prompt 0
        (all_mask_num_tokens (steps demo3_model ! 0) 3 ! 1)
        (1, [[5, 1025, 1025, 1025, 1025, 1025, 1025, 1025],
            [1025, 1025, 1025, 1025, 1025, 1025, 1025, 1025],
            [1025, 1025, 1025, 1025, 1025, 1025, 1025, 1025]],
           [[False, True, True, True, True, True, True, True],
            [True, True, True, True, True, True, True, True],
            [True, True, True, True, True, True, True, True]])
        = Inr (g2, seq2, msk2) \<and>
      length msk2 = 3 \<and> \<not> msk2 ! 0 ! 0 \<and> seq2 ! 0 ! 0 = 5 \<and>
      col 1 msk2 = [True, True, True] \<and> col 1 seq2 = [1025, 1025, 1025] \<and>
      col 0 msk2 = [False, True, False] \<and> col 0 seq2 = [5, 1025, 7])"
    using st len a b d e by blast
  then show ?thesis using demo3_init demo3_sampler_ok k start before c by (intro conjI)
qed

section \<open>C4: prompt invariance\<close>

text \<open>
  C4: for every training batch, mask level \<open>q\<close> and prefix length \<open>t\<close>, the masker returns,
  and at every level the positions before \<open>t\<close> of every example hold their original codes,
  in the masked input and in the caller's tensor; their mask flag is off and their label
  is the ignore value. For every generation, the result is the prompt
  \<^verbatim>\<open>codes[:, :num_prompt, :]\<close>, unchanged, followed by the generated positions: \<open>seq\<close> and the
  flags cover only the positions after the prompt, and every step passes \<open>prompt @ seq\<close> to
  the network.
\<close>

theorem prompt_invariance:
  fixes rand_times :: "real list" and batched_randperm :: "nat list list"
  assumes t3: "tensor3 B N Q codes" and pos: "0 < B" and q: "q < Q" and t: "t < N"
    and draws: "length rand_times = B" "length batched_randperm = B"
      "\<forall>b < B. length (batched_randperm ! b) = N - t"
    and ok: "sampler_ok sample (num_latents_to_generate conds)"
    and st: "8 \<le> length (steps M')"
  shows "(\<exists>masked label codes'.
       masking M codes q t rand_times batched_randperm = Inr (masked, label, codes') \<and>
       (\<forall>i < Q. \<forall>b < B. \<forall>n < t.
          masked ! i ! b ! n = codes ! b ! n ! i \<and> codes' ! b ! n ! i = codes ! b ! n ! i) \<and>
       (\<forall>b < B. \<forall>n < t.
          \<not> level_mask_flags N B t rand_times batched_randperm ! b ! n \<and>
          label ! b ! n = ignore_index M)) \<and>
     (\<exists>seq'. generate M' sample g conds gcodes = Inr (take (num_prompt conds) gcodes @ seq') \<and>
        length seq' = num_latents_to_generate conds)"
proof -
  let ?flags = "level_mask_flags N B t rand_times batched_randperm"
  have N: "0 < N" "t \<le> N" using t by simp_all
  from masking_pointwise [OF t3 pos N(1) q N(2) draws, of M]
  obtain masked label codes' where
    res: "masking M codes q t rand_times batched_randperm = Inr (masked, label, codes')"
    and mq: "\<forall>b < B. \<forall>n < N. masked ! q ! b ! n =
        (if ?flags ! b ! n then mask_token_id M else codes ! b ! n ! q)"
    and lb: "\<forall>b < B. \<forall>n < N. label ! b ! n =
        (if ?flags ! b ! n then codes ! b ! n ! q else ignore_index M)"
    and fine: "\<forall>i < Q. i \<noteq> q \<longrightarrow> (\<forall>b < B. \<forall>n < N. masked ! i ! b ! n =
        (if t \<le> n \<and> q < i then mask_upper_level M else codes ! b ! n ! i))"
    and store: "\<forall>b < B. \<forall>n < N. \<forall>l. codes' ! b ! n ! l =
        (if t \<le> n \<and> q < l \<and> l < Q then mask_upper_level M else codes ! b ! n ! l)"
    by blast
  have off: "\<not> ?flags ! b ! n" if "b < B" "n < t" for b n
    by (rule prompt_flags_off [OF draws(1,2) that])
  have a: "\<forall>i < Q. \<forall>b < B. \<forall>n < t.
          masked ! i ! b ! n = codes ! b ! n ! i \<and> codes' ! b ! n ! i = codes ! b ! n ! i"
  proof (intro allI impI)
    fix i b n assume i: "i < Q" and b: "b < B" and n: "n < t"
    have nN: "n < N" using n t by simp
    have "masked ! i ! b ! n = codes ! b ! n ! i"
    proof (cases "i = q")
      case True
      then show ?thesis using mq b nN off [OF b n] by simp
    next
      case False
      then show ?thesis using fine i b nN n by simp
    qed
    moreover have "codes' ! b ! n ! i = codes ! b ! n ! i" using store b nN n by simp
    ultimately show "masked ! i ! b ! n = codes ! b ! n ! i \<and> codes' ! b ! n ! i = codes ! b ! n ! i"
      by simp
  qed
  have c: "\<forall>b < B. \<forall>n < t. \<not> ?flags ! b ! n \<and> label ! b ! n = ignore_index M"
  proof (intro allI impI)
    fix b n assume b: "b < B" and n: "n < t"
    have nN: "n < N" using n t by simp
    show "\<not> ?flags ! b ! n \<and> label ! b ! n = ignore_index M"
      using lb b nN off [OF b n] by simp
  qed
  have train: "\<exists>masked label codes'.
       masking M codes q t rand_times batched_randperm = Inr (masked, label, codes') \<and>
       (\<forall>i < Q. \<forall>b < B. \<forall>n < t.
          masked ! i ! b ! n = codes ! b ! n ! i \<and> codes' ! b ! n ! i = codes ! b ! n ! i) \<and>
       (\<forall>b < B. \<forall>n < t. \<not> ?flags ! b ! n \<and> label ! b ! n = ignore_index M)"
    using res a c by blast
  from generate_returns [OF ok st, of g gcodes]
  have gen: "\<exists>seq'. generate M' sample g conds gcodes = Inr (take (num_prompt conds) gcodes @ seq') \<and>
        length seq' = num_latents_to_generate conds"
    by blast
  show ?thesis using train gen by (rule conjI)
qed

text \<open>C4 on the small training batch with the prefix 1 and on the small generation.\<close>

theorem prompt_invariance_witness:
  "tensor3 1 3 2 demo_codes \<and> (0::nat) < 1 \<and> (0::nat) < 2 \<and> (1::nat) < 3 \<and>
   sampler_ok demo_sample (num_latents_to_generate [0 :: nat, 0]) \<and>
   8 \<le> length (steps demo_model) \<and>
   (\<exists>masked label codes'.
      masking demo_train_model demo_codes 0 1 [0] [[0, 1]] = Inr (masked, label, codes') \<and>
      masked ! 0 ! 0 ! 0 = 5 \<and> masked ! 1 ! 0 ! 0 = 6 \<and> codes' ! 0 ! 0 ! 1 = 6) \<and>
   (\<exists>seq'. generate demo_model demo_sample () [0 :: nat, 0] [[7, 7, 7, 7, 7, 7, 7, 7]]
              = Inr ([[7, 7, 7, 7, 7, 7, 7, 7]] @ seq'))"
proof -
  have d: "\<forall>b < 1. length ([[0 :: nat, 1]] ! b) = 3 - 1" by simp
  have n: "num_latents_to_generate [0 :: nat, 0] = 2" "num_prompt [0 :: nat, 0] = 1"
    by (simp_all add: num_latents_to_generate_def num_latents_input_def num_prompt_def)
  have ok: "sampler_ok demo_sample (num_latents_to_generate [0 :: nat, 0])"
    using demo_sampler_ok by (simp add: n)
  have st: "8 \<le> length (steps demo_model)" by (simp add: demo_model_def)
  have c: "demo_codes ! 0 ! 0 ! 0 = 5" "demo_codes ! 0 ! 0 ! 1 = 6" by (simp_all add: demo_codes_def)
  from prompt_invariance [where codes = demo_codes and q = 0 and t = 1
      and M = demo_train_model and M' = demo_model and rand_times = "[0]" and batched_randperm = "[[0, 1]]"
      and g = "()" and gcodes = "[[7, 7, 7, 7, 7, 7, 7, 7]]",
      OF demo_codes_shape _ _ _ _ _ d ok st]
  have "(\<exists>masked label codes'.
      masking demo_train_model demo_codes 0 1 [0] [[0, 1]] = Inr (masked, label, codes') \<and>
      (\<forall>i < 2. \<forall>b < 1. \<forall>n < 1.
          masked ! i ! b ! n = demo_codes ! b ! n ! i \<and>
          codes' ! b ! n ! i = demo_codes ! b ! n ! i)) \<and>
     (\<exists>seq'. generate demo_model demo_sample () [0 :: nat, 0] [[7, 7, 7, 7, 7, 7, 7, 7]]
              = Inr (take (num_prompt [0 :: nat, 0]) [[7, 7, 7, 7, 7, 7, 7, 7]] @ seq'))"
    by auto
  then have "(\<exists>masked label codes'.
      masking demo_train_model demo_codes 0 1 [0] [[0, 1]] = Inr (masked, label, codes') \<and>
      masked ! 0 ! 0 ! 0 = 5 \<and> masked ! 1 ! 0 ! 0 = 6 \<and> codes' ! 0 ! 0 ! 1 = 6) \<and>
   (\<exists>seq'. generate demo_model demo_sample () [0 :: nat, 0] [[7, 7, 7, 7, 7, 7, 7, 7]]
              = Inr ([[7, 7, 7, 7, 7, 7, 7, 7]] @ seq'))"
    unfolding n using c by force
  then show ?thesis using demo_codes_shape ok st by simp
qed

section \<open>C5: a step with the target zero\<close>

text \<open>
  C5: a step whose target count is 0 returns with the flags as they were; every position
  of the level whose flag was set before the step now holds its newly sampled code, which
  is not the mask id; every other position of the level, and every other level, keeps its
  code. So the step fills and sets nothing back to the mask id.
\<close>

theorem zero_target_step_fills:
  assumes init: "SoundStorm_init cfg = Inr M"
    and ok: "sampler_ok sample N"
    and sh: "shaped N seq" "shaped N msk" "l < 8"
    and smp: "sample g (prompt @ seq) l = (ids, sc, g')"
  shows "\<exists>seq'. generate_step M sample prompt l 0 (g, seq, msk) = Inr (g', seq', msk) \<and>
     (\<forall>n < N. msk ! n ! l \<longrightarrow> seq' ! n ! l = ids ! n \<and> seq' ! n ! l \<noteq> mask_token_id M) \<and>
     (\<forall>n < N. \<not> msk ! n ! l \<longrightarrow> seq' ! n ! l = seq ! n ! l) \<and>
     (\<forall>l'. l' \<noteq> l \<longrightarrow> col l' seq' = col l' seq)"
proof -
  have mid: "mask_token_id M = 1025" by (rule init_mask_token_id [OF init])
  note d = sampler_okD [OF ok smp]
  have lens: "length ids = length seq" "length sc = length seq"
    using d sh by (simp_all add: shaped_def)
  have z: "generate_step M sample prompt l 0 (g, seq, msk) =
           Inr (g', set_col l seq (torch_where (col l msk) ids (col l seq)), msk)"
    by (rule generate_step_zero [of sample g prompt seq l ids sc g' M msk, OF smp lens])
  from generate_step_pointwise [of sample g prompt seq l ids sc g' N msk 0 M, OF smp d(1,2) sh] z
  obtain seq' where
    eq: "generate_step M sample prompt l 0 (g, seq, msk) = Inr (g', seq', msk)"
    and fr: "\<forall>l'. l' \<noteq> l \<longrightarrow> col l' seq' = col l' seq"
    and ps: "\<forall>n < N. seq' ! n ! l = (if msk ! n ! l then ids ! n else seq ! n ! l)"
    by auto
  have a: "\<forall>n < N. msk ! n ! l \<longrightarrow> seq' ! n ! l = ids ! n \<and> seq' ! n ! l \<noteq> mask_token_id M"
  proof (intro allI impI)
    fix n assume n: "n < N" and m: "msk ! n ! l"
    have "ids ! n \<in> set ids" using n d(1) by simp
    then have "ids ! n < 1025" using d(3) by blast
    then show "seq' ! n ! l = ids ! n \<and> seq' ! n ! l \<noteq> mask_token_id M"
      using ps n m mid by simp
  qed
  have b: "\<forall>n < N. \<not> msk ! n ! l \<longrightarrow> seq' ! n ! l = seq ! n ! l"
    using ps by simp
  show ?thesis using eq a b fr by blast
qed

text \<open>C5 at the second step of level 0 of the small generation: position 1 receives the code 6.\<close>

theorem zero_target_step_fills_witness:
  "SoundStorm_init demo_config = Inr demo_model \<and> sampler_ok demo_sample 2 \<and>
   shaped 2 [[5, 1025, 1025, 1025, 1025, 1025, 1025, 1025],
             [1025, 1025, 1025, 1025, 1025, 1025, 1025, 1025 :: nat]] \<and>
   shaped 2 [[False, True, True, True, True, True, True, True],
             [True, True, True, True, True, True, True, True]] \<and> (0::nat) < 8 \<and>
   (\<exists>seq'. generate_step demo_model demo_sample demo_prompt 0 0 ((), [[5, 1025, 1025, 1025, 1025, 1025, 1025, 1025],
           [1025, 1025, 1025, 1025, 1025, 1025, 1025, 1025]],
          [[False, True, True, True, True, True, True, True],
           [True, True, True, True, True, True, True, True]])
      = Inr ((), seq',
          [[False, True, True, True, True, True, True, True],
           [True, True, True, True, True, True, True, True]]) \<and>
      seq' ! 1 ! 0 = 6 \<and> seq' ! 0 ! 0 = 5)"
proof -
  let ?seq = "[[5, 1025, 1025, 1025, 1025, 1025, 1025, 1025],
               [1025, 1025, 1025, 1025, 1025, 1025, 1025, 1025 :: nat]]"
  let ?msk = "[[False, True, True, True, True, True, True, True],
               [True, True, True, True, True, True, True, True]]"
  have sh: "shaped 2 ?seq" "shaped 2 ?msk" "(0::nat) < 8" by (simp_all add: shaped_def)
  have smp: "demo_sample () (demo_prompt @ ?seq) 0 = ([5, 6], [1 / 10, 9 / 10], ())"
    by (simp add: demo_sample_def)
  from zero_target_step_fills [of demo_config demo_model demo_sample 2 ?seq ?msk 0 "()"
      demo_prompt "[5, 6]" "[1 / 10, 9 / 10]" "()", OF demo_init demo_sampler_ok sh smp]
  obtain seq' where
    "generate_step demo_model demo_sample demo_prompt 0 0 ((), ?seq, ?msk) = Inr ((), seq', ?msk)"
    and "\<forall>n < 2. ?msk ! n ! 0 \<longrightarrow> seq' ! n ! 0 = [5, 6] ! n"
    and "\<forall>n < 2. \<not> ?msk ! n ! 0 \<longrightarrow> seq' ! n ! 0 = ?seq ! n ! 0"
    by blast
  then have "\<exists>seq'. generate_step demo_model demo_sample demo_prompt 0 0 ((), ?seq, ?msk)
      = Inr ((), seq', ?msk) \<and> seq' ! 1 ! 0 = 6 \<and> seq' ! 0 ! 0 = 5"
    by force
  then show ?thesis using demo_init demo_sampler_ok sh by simp
qed

section \<open>C6: top-fraction filtering\<close>

text \<open>
  C6, as stated, at the threshold 1: \<open>1 - 1\<close> is 0 and \<open>0 * vocab\<close> is 0, both exactly, in
  double precision as over the reals, so \<open>k = ceil(0) = 0\<close>: the filter keeps no logit at all
  and every entry of the row becomes \<open>-inf\<close>.
\<close>

theorem top_k_threshold_one_counterexample:
  "top_k fixed53 [3 / 10, 7 / 10] 1 = Inr [None, None]"
  by (simp add: top_k_def topk_indices_def scatter_def fixed53_zero)

text \<open>
  C6, amended: let \<open>p\<close> be \<^verbatim>\<open>(1 - thres) * vocab\<close> as the code computes it, in double precision
  (the difference rounded to a double, then the product rounded to a double). For every
  threshold in \<open>(0, 1]\<close> that is a double, and a row of at most \<open>2^53\<close> logits, the filter
  returns a row of the same length in which exactly \<open>ceil(p)\<close> entries keep their logit,
  every kept logit is at least every dropped one, and the rest are \<open>-inf\<close>. At least one logit
  is kept when the threshold is below 1 and the row is not empty; at the threshold 1 none is
  kept. (\<open>ceil(p)\<close> can differ by one from the ceiling of the exact product: at the threshold
  0.7 over ten logits the doubles give \<open>p\<close> slightly above 3, and four logits are kept.)
\<close>

theorem top_k_keeps_top_fraction:
  fixes logits :: "real list" and thres :: real
  assumes "binary64 rnd" "rnd thres = thres" "0 < thres" "thres \<le> 1" "length logits \<le> 2 ^ 53"
  shows "\<exists>probs. top_k rnd logits thres = Inr probs \<and> length probs = length logits \<and>
     (\<forall>i < length logits. probs ! i = None \<or> probs ! i = Some (logits ! i)) \<and>
     int (length (filter (\<lambda>p. p \<noteq> None) probs))
       = \<lceil>rnd (rnd (1 - thres) * real (length logits))\<rceil> \<and>
     (\<forall>i < length logits. \<forall>j < length logits.
        probs ! i \<noteq> None \<longrightarrow> probs ! j = None \<longrightarrow> logits ! j \<le> logits ! i) \<and>
     (thres < 1 \<longrightarrow> logits \<noteq> [] \<longrightarrow> (\<exists>i < length logits. probs ! i \<noteq> None)) \<and>
     (thres = 1 \<longrightarrow> (\<forall>i < length logits. probs ! i = None))"
proof -
  let ?c = "\<lceil>rnd (rnd (1 - thres) * real (length logits))\<rceil>"
  define k where "k = nat ?c"
  define idx where "idx = take k (sort_key (\<lambda>i. - (logits ! i)) [0..<length logits])"
  define probs where
    "probs = map (\<lambda>i. if i \<in> set idx then Some (logits ! i) else None) [0..<length logits]"
  note b = assms(1)
  have kV: "k \<le> length logits"
    using top_k_result(1) [OF assms(1,3,4,5)] by (simp add: k_def)
  have res: "top_k rnd logits thres = Inr probs"
    using top_k_result(2) [OF assms(1,3,4,5)] by (simp add: probs_def idx_def k_def)
  note sel = topk_sel [OF idx_def kV]
  have len: "length probs = length logits" by (simp add: probs_def)
  have nth: "probs ! i = (if i \<in> set idx then Some (logits ! i) else None)"
    if "i < length logits" for i using that by (simp add: probs_def)
  have c1: "\<forall>i < length logits. probs ! i = None \<or> probs ! i = Some (logits ! i)"
    by (simp add: nth)
  have "length (filter (\<lambda>p. p \<noteq> None) probs) = length (filter (\<lambda>i. i \<in> set idx) [0..<length logits])"
    by (simp add: probs_def filter_map comp_def)
  also have "\<dots> = card ({i. i \<in> set idx} \<inter> set [0..<length logits])"
    by (rule distinct_length_filter) simp
  also have "{i. i \<in> set idx} \<inter> set [0..<length logits] = set idx"
    using sel(3) by auto
  also have "card (set idx) = k" using sel(1,2) by (simp add: distinct_card)
  finally have cnt: "length (filter (\<lambda>p. p \<noteq> None) probs) = k" .
  have knn: "0 \<le> ?c" by (rule top_k_count_bounds(1) [OF assms(1,3,4,5)])
  have c2: "int (length (filter (\<lambda>p. p \<noteq> None) probs)) = ?c"
    using cnt knn by (simp add: k_def)
  have c3: "\<forall>i < length logits. \<forall>j < length logits.
        probs ! i \<noteq> None \<longrightarrow> probs ! j = None \<longrightarrow> logits ! j \<le> logits ! i"
  proof (intro allI impI)
    fix i j assume ij: "i < length logits" "j < length logits"
      and "probs ! i \<noteq> None" "probs ! j = None"
    then have "i \<in> set idx" "j \<notin> set idx" by (auto simp: nth split: if_splits)
    then show "logits ! j \<le> logits ! i" using sel(4) ij by blast
  qed
  have c4: "thres < 1 \<longrightarrow> logits \<noteq> [] \<longrightarrow> (\<exists>i < length logits. probs ! i \<noteq> None)"
  proof (intro impI)
    assume "thres < 1" "logits \<noteq> []"
    then have "0 < ?c" using top_k_count_pos [OF b assms(2)] by simp
    then have "0 < k" by (simp add: k_def)
    then have "idx \<noteq> []" using sel(2) by auto
    then obtain i where i: "i \<in> set idx" by (cases idx) auto
    then have "i < length logits" using sel(3) by auto
    then show "\<exists>i < length logits. probs ! i \<noteq> None" using i nth by auto
  qed
  have c5: "thres = 1 \<longrightarrow> (\<forall>i < length logits. probs ! i = None)"
  proof (intro impI)
    assume "thres = 1"
    then have "k = 0" using top_k_count_zero [OF b, of "length logits"] by (simp add: k_def)
    then have "idx = []" by (simp add: idx_def)
    then show "\<forall>i < length logits. probs ! i = None" by (simp add: nth)
  qed
  show ?thesis using res len c1 c2 c3 c4 c5 by blast
qed

text \<open>
  C6, the amended claim at the threshold one half over three logits; \<open>1 - 0.5\<close> and
  \<open>0.5 * 3\<close> are exact in double precision.
\<close>

theorem top_k_keeps_top_fraction_witness:
  "binary64 fixed53 \<and> fixed53 (1 / 2) = 1 / 2 \<and> (0::real) < 1 / 2 \<and> (1 / 2 :: real) \<le> 1 \<and>
   length [3 / 10, 7 / 10, 5 / 10 :: real] \<le> 2 ^ 53 \<and>
   top_k fixed53 [3 / 10, 7 / 10, 5 / 10] (1 / 2) = Inr [None, Some (7 / 10), Some (5 / 10)]"
  using top_k_keeps_top_fraction [of fixed53 "1 / 2" "[3 / 10, 7 / 10, 5 / 10]"]
  by (simp add: top_k_def topk_indices_def scatter_def binary64_fixed53 fixed53_half
      fixed53_three_halves)

section \<open>C7: the number of positions masked at the mask level\<close>

text \<open>
  C7, as stated, on the small training batch with the prefix 0 and the draw \<open>u = 1/2\<close>:
  \<open>r * 3 = 2.12...\<close>, all three positions of level 0 are replaced by the mask id 1025,
  and \<open>max(1, round(r * 3))\<close> is 2.
\<close>

theorem level_mask_count_counterexample:
  "masking demo_train_model demo_codes 0 0 [1 / 2] [[0, 1, 2]]
     = Inr ([[[1025, 1025, 1025]], [[1025, 1025, 1025]]], [[5, 7, 9]],
            [[[5, 1025], [7, 1025], [9, 1025]]]) \<and>
   count_list [1025, 1025, 1025] (mask_token_id demo_train_model) = 3 \<and>
   max 1 (round (cos (1 / 2 * pi / 2) * real (3 - 0))) = 2"
  using demo_masking_half round_half_schedule by (simp add: demo_train_ids)

text \<open>
  C7, amended: for every training example \<open>b\<close> with mask level \<open>q\<close> and prefix length
  \<open>t < time\<close>, whose codes at level \<open>q\<close> are real codes, the number of positions replaced by
  the mask id at level \<open>q\<close> is \<open>max(1, ceil(r * (time - t)))\<close> with \<open>r = cos(u * pi / 2)\<close>:
  the code compares the rank of a position with the unrounded \<open>r * (time - t)\<close>.
\<close>

theorem level_mask_count:
  fixes rand_times :: "real list" and batched_randperm :: "nat list list" and M :: soundstorm
  assumes t3: "tensor3 B N Q codes" and q: "q < Q" and t: "t < N"
    and draws: "length rand_times = B" "length batched_randperm = B"
    and perm: "\<forall>b < B. distinct (batched_randperm ! b) \<and> set (batched_randperm ! b) = {0..<N - t}"
    and u: "\<forall>b < B. 0 \<le> rand_times ! b \<and> rand_times ! b < 1"
    and real_codes: "\<forall>b < B. \<forall>n < N. codes ! b ! n ! q \<noteq> mask_token_id M"
    and b: "b < B"
  shows "\<exists>masked label codes'.
     masking M codes q t rand_times batched_randperm = Inr (masked, label, codes') \<and>
     int (count_list (masked ! q ! b) (mask_token_id M))
       = max 1 \<lceil>cos (rand_times ! b * pi / 2) * real (N - t)\<rceil>"
proof -
  let ?flags = "level_mask_flags N B t rand_times batched_randperm"
  let ?p = "batched_randperm ! b"
  let ?x = "max (cosine_schedule (rand_times ! b) * real (N - t)) 1"
  have pos: "0 < B" "0 < N" using b t by simp_all
  have tN: "t \<le> N" using t by simp
  have lens: "\<forall>b < B. length (batched_randperm ! b) = N - t"
  proof (intro allI impI)
    fix c assume "c < B"
    then have "distinct (batched_randperm ! c)" "set (batched_randperm ! c) = {0..<N - t}"
      using perm by simp_all
    then show "length (batched_randperm ! c) = N - t"
      by (metis card_atLeastLessThan diff_zero distinct_card)
  qed
  from masking_pointwise [OF t3 pos q tN draws lens, of M]
  obtain masked label codes' where
    res: "masking M codes q t rand_times batched_randperm = Inr (masked, label, codes')"
    and len: "\<forall>b < B. length (?flags ! b) = N \<and> length (masked ! q ! b) = N"
    and mq: "\<forall>b < B. \<forall>n < N. masked ! q ! b ! n =
        (if ?flags ! b ! n then mask_token_id M else codes ! b ! n ! q)"
    by blast
  have l1: "length (masked ! q ! b) = N" and l2: "length (?flags ! b) = N"
    using len b by simp_all
  have "count_list (masked ! q ! b) (mask_token_id M)
        = length (filter ((=) (mask_token_id M)) (masked ! q ! b))"
    by (rule count_list_eq_length_filter)
  also have "\<dots> = card {n. n < length (masked ! q ! b) \<and> mask_token_id M = masked ! q ! b ! n}"
    by (rule length_filter_conv_card)
  also have "{n. n < length (masked ! q ! b) \<and> mask_token_id M = masked ! q ! b ! n}
             = {n. n < length (?flags ! b) \<and> ?flags ! b ! n}"
  proof -
    have "mask_token_id M = masked ! q ! b ! n \<longleftrightarrow> ?flags ! b ! n" if "n < N" for n
    proof (cases "?flags ! b ! n")
      case True
      then show ?thesis using mq b that by simp
    next
      case False
      then have "masked ! q ! b ! n = codes ! b ! n ! q" using mq b that by simp
      then show ?thesis using False real_codes b that by force
    qed
    then show ?thesis by (auto simp: l1 l2)
  qed
  also have "card \<dots> = length (filter (\<lambda>c. c) (?flags ! b))"
    by (rule length_filter_conv_card [symmetric])
  also have "\<dots> = length (filter (\<lambda>r. real r < ?x) ?p)"
    by (simp add: nth_level_mask_flags [OF draws b] filter_map comp_def)
  finally have cnt: "count_list (masked ! q ! b) (mask_token_id M)
        = length (filter (\<lambda>r. real r < ?x) ?p)" .
  have ub: "0 \<le> rand_times ! b" "rand_times ! b \<le> 1" using u b by (simp_all add: less_imp_le)
  note cs = cosine_schedule_unit [OF ub]
  have m1: "1 \<le> real (N - t)" using t by simp
  have "cosine_schedule (rand_times ! b) * real (N - t) \<le> 1 * real (N - t)"
    using cs(2) by (intro mult_right_mono) simp_all
  then have x: "0 < ?x" "?x \<le> real (N - t)" using m1 by simp_all
  have d: "distinct ?p" "set ?p = {0..<N - t}" using perm b by simp_all
  have "int (length (filter (\<lambda>r. real r < ?x) ?p)) = \<lceil>?x\<rceil>"
    by (rule count_below_threshold [OF d x])
  also have "\<dots> = max 1 \<lceil>cosine_schedule (rand_times ! b) * real (N - t)\<rceil>"
    by (rule ceiling_max_one)
  finally have "int (count_list (masked ! q ! b) (mask_token_id M))
       = max 1 \<lceil>cos (rand_times ! b * pi / 2) * real (N - t)\<rceil>"
    by (simp only: cnt cs(3))
  then show ?thesis using res by blast
qed

text \<open>C7, amended, on the same batch: three positions are replaced.\<close>

theorem level_mask_count_witness:
  "tensor3 1 3 2 demo_codes \<and> (0::nat) < 2 \<and> (0::nat) < 3 \<and> (0::nat) < 1 \<and>
   distinct [0 :: nat, 1, 2] \<and> set [0 :: nat, 1, 2] = {0..<3 - 0} \<and>
   (0 :: real) \<le> 1 / 2 \<and> (1 / 2 :: real) < 1 \<and>
   (\<exists>masked label codes'.
      masking demo_train_model demo_codes 0 0 [1 / 2] [[0, 1, 2]] = Inr (masked, label, codes') \<and>
      count_list (masked ! 0 ! 0) (mask_token_id demo_train_model) = 3)"
proof -
  have p: "distinct [0 :: nat, 1, 2]" "set [0 :: nat, 1, 2] = {0..<3 - 0}" by auto
  have perm: "\<forall>b < 1. distinct ([[0 :: nat, 1, 2]] ! b) \<and> set ([[0 :: nat, 1, 2]] ! b) = {0..<3 - 0}"
    using p by simp
  have u: "\<forall>b < 1. 0 \<le> [1 / 2 :: real] ! b \<and> [1 / 2 :: real] ! b < 1" by simp
  have rc: "\<forall>b < 1. \<forall>n < 3. demo_codes ! b ! n ! 0 \<noteq> mask_token_id demo_train_model"
    by (simp add: demo_train_ids demo_codes_def less_Suc_eq numeral_3_eq_3)
  from level_mask_count [where codes = demo_codes and q = 0 and t = 0 and b = 0
      and M = demo_train_model and rand_times = "[1 / 2]" and batched_randperm = "[[0, 1, 2]]",
      OF demo_codes_shape _ _ _ _ perm u rc]
  have "\<exists>masked label codes'.
     masking demo_train_model demo_codes 0 0 [1 / 2] [[0, 1, 2]] = Inr (masked, label, codes')"
    by auto
  then have "\<exists>masked label codes'.
      masking demo_train_model demo_codes 0 0 [1 / 2] [[0, 1, 2]] = Inr (masked, label, codes') \<and>
      count_list (masked ! 0 ! 0) (mask_token_id demo_train_model) = 3"
    using demo_masking_half by (simp add: demo_train_ids)
  then show ?thesis using demo_codes_shape p by simp
qed

section \<open>C8: the levels above the mask level\<close>

text \<open>
  C8, as stated, on the model built from the small training configuration: the id written
  over the finer levels and the mask id are the same number, 1025.
\<close>

theorem upper_level_id_counterexample:
  "SoundStorm_init demo_train_config = Inr demo_train_model \<and>
   mask_upper_level demo_train_model = 1025 \<and> mask_token_id demo_train_model = 1025"
  using demo_train_init by (simp add: demo_train_ids)

text \<open>
  C8, amended: for every training batch with mask level \<open>q\<close> and prefix \<open>t\<close>, at every level
  \<open>i > q\<close> every example has the positions from index \<open>t\<close> onward replaced with the
  upper-level-masked id and the positions before \<open>t\<close> untouched; that id is the same value
  as the mask id (both are the codebook size, 1025).
\<close>

theorem fine_levels_hidden:
  fixes rand_times :: "real list" and batched_randperm :: "nat list list"
  assumes init: "SoundStorm_init cfg = Inr M"
    and t3: "tensor3 B N Q codes" and pos: "0 < B" and q: "q < Q" and t: "t < N"
    and draws: "length rand_times = B" "length batched_randperm = B"
      "\<forall>b < B. length (batched_randperm ! b) = N - t"
  shows "\<exists>masked label codes'.
     masking M codes q t rand_times batched_randperm = Inr (masked, label, codes') \<and>
     (\<forall>i < Q. q < i \<longrightarrow> (\<forall>b < B. \<forall>n < N. masked ! i ! b ! n =
        (if t \<le> n then mask_upper_level M else codes ! b ! n ! i))) \<and>
     mask_upper_level M = mask_token_id M \<and> mask_token_id M = 1025"
proof -
  have ids: "mask_upper_level M = mask_token_id M" "mask_token_id M = 1025"
    using init by (auto simp: SoundStorm_init_def split: if_splits)
  have N: "0 < N" "t \<le> N" using t by simp_all
  from masking_pointwise [OF t3 pos N(1) q N(2) draws, of M]
  obtain masked label codes' where
    res: "masking M codes q t rand_times batched_randperm = Inr (masked, label, codes')"
    and fine: "\<forall>i < Q. i \<noteq> q \<longrightarrow> (\<forall>b < B. \<forall>n < N. masked ! i ! b ! n =
        (if t \<le> n \<and> q < i then mask_upper_level M else codes ! b ! n ! i))"
    by blast
  have "\<forall>i < Q. q < i \<longrightarrow> (\<forall>b < B. \<forall>n < N. masked ! i ! b ! n =
        (if t \<le> n then mask_upper_level M else codes ! b ! n ! i))"
    using fine by auto
  then show ?thesis using res ids by blast
qed

text \<open>C8, amended, on the small training batch with \<open>q = 0\<close> and \<open>t = 1\<close>.\<close>

theorem fine_levels_hidden_witness:
  "SoundStorm_init demo_train_config = Inr demo_train_model \<and> tensor3 1 3 2 demo_codes \<and>
   (0::nat) < 1 \<and> (0::nat) < 2 \<and> (1::nat) < 3 \<and>
   (\<exists>masked label codes'.
      masking demo_train_model demo_codes 0 1 [0] [[0, 1]] = Inr (masked, label, codes') \<and>
      masked ! 1 ! 0 ! 1 = mask_upper_level demo_train_model \<and> masked ! 1 ! 0 ! 0 = 6)"
proof -
  have d: "\<forall>b < 1. length ([[0 :: nat, 1]] ! b) = 3 - 1" by simp
  have c: "demo_codes ! 0 ! 0 ! 1 = 6" by (simp add: demo_codes_def)
  from fine_levels_hidden [where codes = demo_codes and q = 0 and t = 1
      and M = demo_train_model and rand_times = "[0]" and batched_randperm = "[[0, 1]]",
      OF demo_train_init demo_codes_shape _ _ _ _ _ d]
  obtain masked label codes' where
    "masking demo_train_model demo_codes 0 1 [0] [[0, 1]] = Inr (masked, label, codes')"
    and "\<forall>i < 2. 0 < i \<longrightarrow> (\<forall>b < 1. \<forall>n < 3. masked ! i ! b ! n =
        (if 1 \<le> n then mask_upper_level demo_train_model else demo_codes ! b ! n ! i))"
    by auto
  then have "\<exists>masked label codes'.
      masking demo_train_model demo_codes 0 1 [0] [[0, 1]] = Inr (masked, label, codes') \<and>
      masked ! 1 ! 0 ! 1 = mask_upper_level demo_train_model \<and> masked ! 1 ! 0 ! 0 = 6"
    using c by force
  then show ?thesis using demo_train_init demo_codes_shape by simp
qed

section \<open>C9: the caller's codes\<close>

text \<open>
  C9 on the small training batch, \<open>q = 0\<close>, \<open>t = 1\<close>: the third component of the result is
  the caller's tensor after the call. Its entries at the positions 1 and 2 of level 1 were
  8 and 10 and are 1025 afterwards: \<open>_fine_mask\<close> assigns through a view of the caller's
  storage.
\<close>

theorem masking_overwrites_caller_codes:
  "demo_codes = [[[5, 6], [7, 8], [9, 10]]] \<and>
   masking demo_train_model demo_codes 0 1 [0] [[0, 1]]
     = Inr ([[[5, 1025, 1025]], [[6, 1025, 1025]]], [[1025, 7, 9]],
            [[[5, 6], [7, 1025], [9, 1025]]])"
  using demo_masking_fine by (simp add: demo_codes_def)

section \<open>C10: the length of the steps list\<close>

text \<open>
  C10, as stated, on a configuration with an empty steps list and eight quantizer levels:
  construction succeeds.
\<close>

theorem empty_steps_counterexample:
  "SoundStorm_init
     \<lparr> acoustic_codebook_size = 1025, acoustic_num_quantizers = 8, inference_steps = [],
       inference_filter_threshold = 9 / 10, inference_temperature = 1 \<rparr>
   = Inr \<lparr> steps = [], filter_threshold = 9 / 10, temperature = 1, ignore_index = 1025,
           n_q = 8, mask_token_id = 1025, mask_upper_level = 1025 \<rparr>"
  by (simp add: SoundStorm_init_def)

text \<open>
  C10, amended: construction does not look at the steps list. It stores the list as it is,
  and when it succeeds for a configuration it succeeds for the same configuration with any
  other steps list. The length is met only by \<open>generate\<close>, which reads one entry for each of
  its 8 levels: with fewer than 8 entries it raises an index error at the first level
  without an entry, provided the sampler returns well-shaped ids and scores at the levels
  before (and, for the float schedule, the float product is accurate to one half). Entries
  beyond the eighth are never read: \<open>generate\<close> does the same with the first 8 entries alone.
\<close>

theorem steps_length_checked_only_by_generate:
  assumes init: "SoundStorm_init cfg = Inr M"
  shows "steps M = inference_steps cfg \<and>
     SoundStorm_init (cfg\<lparr>inference_steps := s\<rparr>) = Inr (M\<lparr>steps := s\<rparr>) \<and>
     (sampler_ok sample (num_latents_to_generate conds) \<longrightarrow>
      accurate_product fprod (num_latents_to_generate conds) \<longrightarrow>
      length (inference_steps cfg) < 8 \<longrightarrow>
        generate_f32 fprod M sample g conds codes = Inl IndexError) \<and>
     (sampler_ok sample (num_latents_to_generate conds) \<longrightarrow>
      length (inference_steps cfg) < 8 \<longrightarrow>
        generate M sample g conds codes = Inl IndexError) \<and>
     generate_f32 fprod (M\<lparr>steps := take 8 (steps M)\<rparr>) sample g conds codes
       = generate_f32 fprod M sample g conds codes"
proof -
  have s: "steps M = inference_steps cfg"
    using init by (auto simp: SoundStorm_init_def split: if_splits)
  have u: "SoundStorm_init (cfg\<lparr>inference_steps := s\<rparr>) = Inr (M\<lparr>steps := s\<rparr>)"
    using init by (auto simp: SoundStorm_init_def split: if_splits)
  have f: "generate_f32 fprod M sample g conds codes = Inl IndexError"
    if "sampler_ok sample (num_latents_to_generate conds)"
      "accurate_product fprod (num_latents_to_generate conds)"
      "length (inference_steps cfg) < 8"
    using generate_f32_short [OF that(1,2), of M g codes] that(3) s by simp
  have e: "generate M sample g conds codes = Inl IndexError"
    if "sampler_ok sample (num_latents_to_generate conds)" "length (inference_steps cfg) < 8"
    using generate_f32_short [OF that(1) accurate_exact_product, of M g codes] that(2) s
    by (simp add: generate_exact)
  show ?thesis using s u f e generate_f32_take8 [of fprod M sample g conds codes] by blast
qed

text \<open>
  C10, amended, on the configuration of the small generation with an empty steps list: the
  construction succeeds, as it does with a list of two entries, and \<open>generate\<close> raises the
  index error.
\<close>

theorem steps_length_checked_only_by_generate_witness:
  "SoundStorm_init (demo_config\<lparr>inference_steps := []\<rparr>) = Inr (demo_model\<lparr>steps := []\<rparr>) \<and>
   sampler_ok demo_sample (num_latents_to_generate [0 :: nat, 0]) \<and>
   accurate_product exact_product (num_latents_to_generate [0 :: nat, 0]) \<and>
   length (inference_steps (demo_config\<lparr>inference_steps := []\<rparr>)) < 8 \<and>
   SoundStorm_init (demo_config\<lparr>inference_steps := [2, 1]\<rparr>) = Inr (demo_model\<lparr>steps := [2, 1]\<rparr>) \<and>
   generate_f32 exact_product (demo_model\<lparr>steps := []\<rparr>) demo_sample () [0 :: nat, 0]
     [[7, 7, 7, 7, 7, 7, 7, 7], [8, 8, 8, 8, 8, 8, 8, 8], [9, 9, 9, 9, 9, 9, 9, 9]]
     = Inl IndexError \<and>
   generate (demo_model\<lparr>steps := []\<rparr>) demo_sample () [0 :: nat, 0]
     [[7, 7, 7, 7, 7, 7, 7, 7], [8, 8, 8, 8, 8, 8, 8, 8], [9, 9, 9, 9, 9, 9, 9, 9]]
     = Inl IndexError"
proof -
  have i: "SoundStorm_init (demo_config\<lparr>inference_steps := []\<rparr>) = Inr (demo_model\<lparr>steps := []\<rparr>)"
    by (simp add: SoundStorm_init_def demo_config_def demo_model_def)
  have n: "num_latents_to_generate [0 :: nat, 0] = 2"
    by (simp add: num_latents_to_generate_def num_latents_input_def num_prompt_def)
  have ok: "sampler_ok demo_sample (num_latents_to_generate [0 :: nat, 0])"
    using demo_sampler_ok by (simp add: n)
  have acc: "accurate_product exact_product (num_latents_to_generate [0 :: nat, 0])"
    by (rule accurate_exact_product)
  have L: "length (inference_steps (demo_config\<lparr>inference_steps := []\<rparr>)) < 8" by simp
  note t = steps_length_checked_only_by_generate [OF i, of "[2, 1]" demo_sample "[0 :: nat, 0]"
      exact_product "()"
      "[[7, 7, 7, 7, 7, 7, 7, 7], [8, 8, 8, 8, 8, 8, 8, 8], [9, 9, 9, 9, 9, 9, 9, 9]]"]
  have a: "SoundStorm_init (demo_config\<lparr>inference_steps := [2, 1]\<rparr>)
           = Inr (demo_model\<lparr>steps := [2, 1]\<rparr>)"
    using t by simp
  have b: "generate_f32 exact_product (demo_model\<lparr>steps := []\<rparr>) demo_sample () [0 :: nat, 0]
     [[7, 7, 7, 7, 7, 7, 7, 7], [8, 8, 8, 8, 8, 8, 8, 8], [9, 9, 9, 9, 9, 9, 9, 9]]
     = Inl IndexError"
    using t ok acc L by blast
  have c: "generate (demo_model\<lparr>steps := []\<rparr>) demo_sample () [0 :: nat, 0]
     [[7, 7, 7, 7, 7, 7, 7, 7], [8, 8, 8, 8, 8, 8, 8, 8], [9, 9, 9, 9, 9, 9, 9, 9]]
     = Inl IndexError"
    using t ok L by blast
  show ?thesis using i ok acc L a b c by (intro conjI)
qed

end
